theory Spec2Isabelle
  imports Complex_Main "HOL-Library.Multiset"
begin

section \<open>Text conversions of the token-stream reader\<close>

text \<open>
  The reader sits on Qt's XML stream reader. The string operations that the functions
  of \<^verbatim>\<open>xmlreader.cpp\<close> call are written out here for 8-bit text: \<open>isEmpty\<close> is
  \<open>s = []\<close>, \<open>leftRef\<close> and \<open>midRef\<close> cut a string at a position, \<open>indexOf\<close> gives
  the first position of a character or \<open>-1\<close>, and \<open>toInt\<close> reads a decimal number.
\<close>

definition isSpace :: "char \<Rightarrow> bool" where
  "isSpace c = (c \<in> set [CHR '' '', CHR 0x09, CHR 0x0A, CHR 0x0B, CHR 0x0C, CHR 0x0D])"

definition trimmed :: "string \<Rightarrow> string" where
  "trimmed s = rev (dropWhile isSpace (rev (dropWhile isSpace s)))"

definition digitValue :: "char \<Rightarrow> int option" where
  "digitValue c = map_of (zip ''0123456789'' [0, 1, 2, 3, 4, 5, 6, 7, 8, 9]) c"

fun digitsValue :: "int \<Rightarrow> string \<Rightarrow> int option" where
  "digitsValue acc [] = Some acc"
| "digitsValue acc (c # cs) =
     (case digitValue c of None \<Rightarrow> None | Some d \<Rightarrow> digitsValue (10 * acc + d) cs)"

text \<open>
  \<open>QString::toInt\<close> in base 10: white space around the number is ignored, one sign may
  come first, the rest must be decimal digits, and the value must fit a 32-bit int.
  Every other text converts to 0 (Qt reports the failure through an \<open>ok\<close> flag that
  no caller in \<^verbatim>\<open>xmlreader.cpp\<close> passes).
\<close>

definition toInt :: "string \<Rightarrow> int" where
  "toInt s =
     (let t = trimmed s;
          neg = (t \<noteq> [] \<and> hd t = CHR ''-'');
          ds = (if t \<noteq> [] \<and> (hd t = CHR ''-'' \<or> hd t = CHR ''+'') then tl t else t)
      in if ds = [] then 0
         else case digitsValue 0 ds of
                None \<Rightarrow> 0
              | Some v \<Rightarrow>
                  (let r = (if neg then - v else v)
                   in if - 2147483648 \<le> r \<and> r \<le> 2147483647 then r else 0))"

fun indexOf :: "string \<Rightarrow> char \<Rightarrow> int" where
  "indexOf [] c = - 1"
| "indexOf (x # xs) c =
     (if x = c then 0 else (let i = indexOf xs c in if i = - 1 then - 1 else i + 1))"

definition leftRef :: "string \<Rightarrow> int \<Rightarrow> string" where
  "leftRef s i = take (nat i) s"

definition midRef :: "string \<Rightarrow> int \<Rightarrow> string" where
  "midRef s i = drop (nat i) s"

section \<open>The current element and its attributes\<close>

text \<open>
  The reader stands on a start element. What the functions below read of it are its
  attributes, in document order (\<open>QXmlStreamAttributes\<close> is a vector; a lookup takes the
  first attribute of the name), and the text up to its end tag, which
  \<open>readElementText\<close> returns and which is empty when the element has no text child.
\<close>

record element =
  attributes :: "(string \<times> string) list"
  elementText :: "string"

definition attrs_hasAttribute :: "(string \<times> string) list \<Rightarrow> string \<Rightarrow> bool" where
  "attrs_hasAttribute as s = (map_of as s \<noteq> None)"

text \<open>\<open>QXmlStreamAttributes::value\<close>: the empty string when no attribute has the name.\<close>

definition attrs_value :: "(string \<times> string) list \<Rightarrow> string \<Rightarrow> string" where
  "attrs_value as s = (case map_of as s of None \<Rightarrow> [] | Some v \<Rightarrow> v)"

definition readElementText :: "element \<Rightarrow> string" where
  "readElementText e = elementText e"

subsection \<open>Attribute accessors\<close>

text \<open>
  \<open>intAttribute\<close> and \<open>doubleAttribute\<close> are overloaded in the source: with a default
  (here \<open>intAttribute_default\<close>, \<open>doubleAttribute_default\<close>) and without. The conversion
  to a double is Qt's; it is the parameter \<open>toDouble\<close>, into any type of doubles.
\<close>

definition hasAttribute :: "element \<Rightarrow> string \<Rightarrow> bool" where
  "hasAttribute e s = attrs_hasAttribute (attributes e) s"

definition intAttribute_default :: "element \<Rightarrow> string \<Rightarrow> int \<Rightarrow> int" where
  "intAttribute_default e s dflt =
     (if attrs_hasAttribute (attributes e) s then toInt (attrs_value (attributes e) s)
      else dflt)"

definition intAttribute :: "element \<Rightarrow> string \<Rightarrow> int" where
  "intAttribute e s = toInt (attrs_value (attributes e) s)"

definition doubleAttribute :: "(string \<Rightarrow> 'd) \<Rightarrow> element \<Rightarrow> string \<Rightarrow> 'd" where
  "doubleAttribute toDouble e s = toDouble (attrs_value (attributes e) s)"

definition doubleAttribute_default :: "(string \<Rightarrow> 'd) \<Rightarrow> element \<Rightarrow> string \<Rightarrow> 'd \<Rightarrow> 'd" where
  "doubleAttribute_default toDouble e s dflt =
     (if attrs_hasAttribute (attributes e) s then toDouble (attrs_value (attributes e) s)
      else dflt)"

definition attribute :: "element \<Rightarrow> string \<Rightarrow> string \<Rightarrow> string" where
  "attribute e s dflt =
     (if attrs_hasAttribute (attributes e) s then attrs_value (attributes e) s else dflt)"

subsection \<open>readFraction\<close>

text \<open>
  The class \<open>Fraction\<close> is declared in \<^verbatim>\<open>libmscore/fraction.h\<close>, outside the file at
  hand. \<open>readFraction\<close> uses two things of it, which are its parameters here: the
  constructor \<open>Fraction(z, n)\<close> from a numerator and a denominator, and
  \<open>Fraction::fromTicks\<close>, which turns an integer number of ticks into a fraction.
\<close>

definition readFraction :: "(int \<Rightarrow> int \<Rightarrow> 'f) \<Rightarrow> (int \<Rightarrow> 'f) \<Rightarrow> element \<Rightarrow> 'f" where
  "readFraction Fraction fromTicks e =
     (let z = toInt (attribute e ''z'' ''0'');
          n = toInt (attribute e ''n'' ''1'');
          s = readElementText e
      in if s \<noteq> [] then
           (let i = indexOf s CHR ''/''
            in if i = - 1 then fromTicks (toInt s)
               else Fraction (toInt (leftRef s i)) (toInt (midRef s (i + 1))))
         else Fraction z n)"

subsection \<open>readDouble\<close>

text \<open>
  A C++ \<open>double\<close> is either not a number or a number. Comparisons are the only
  operations \<open>readDouble\<close> performs on doubles: every comparison with NaN is false, and
  the numbers (the finite ones and the two infinities, type \<open>'a\<close>) are linearly
  ordered. \<open>dless\<close> is \<open><\<close> on doubles and \<open>dle\<close> is \<open><=\<close>.
\<close>

datatype 'a double = NaN | Num 'a

fun dless :: "'a::linorder double \<Rightarrow> 'a double \<Rightarrow> bool" where
  "dless (Num a) (Num b) = (a < b)"
| "dless _ _ = False"

fun dle :: "'a::linorder double \<Rightarrow> 'a double \<Rightarrow> bool" where
  "dle (Num a) (Num b) = (a \<le> b)"
| "dle _ _ = False"

text \<open>
  \<open>val > max\<close> of the source is \<open>dless hi val\<close>. The conversion \<open>QString::toDouble\<close>
  is the parameter \<open>toDouble\<close>.
\<close>

definition readDouble ::
  "(string \<Rightarrow> 'a::linorder double) \<Rightarrow> 'a double \<Rightarrow> 'a double \<Rightarrow> element \<Rightarrow> 'a double" where
  "readDouble toDouble lo hi e =
     (let val = toDouble (readElementText e)
      in if dless val lo then lo else if dless hi val then hi else val)"

section \<open>User text styles\<close>

text \<open>
  Of the enumeration \<open>TextStyleType\<close> the reader uses the twelve user slots and
  \<open>TEXT_TYPES\<close>, which is both the answer of \<open>addUserTextStyle\<close> when no slot is left
  and the answer of \<open>lookupUserTextStyle\<close> for an unknown name. \<open>userTextStyles\<close> is
  the reader's list of \<open>{name, ss}\<close> entries.
\<close>

datatype TextStyleType =
  USER1 | USER2 | USER3 | USER4 | USER5 | USER6 | USER7 | USER8 | USER9 | USER10
  | USER11 | USER12 | TEXT_TYPES

type_synonym userTextStyles = "(string \<times> TextStyleType) list"

definition addUserTextStyle ::
  "string \<Rightarrow> userTextStyles \<Rightarrow> TextStyleType \<times> userTextStyles" where
  "addUserTextStyle name uts =
     (let id = (if length uts = 0 then USER1
                else if length uts = 1 then USER2
                else if length uts = 2 then USER3
                else if length uts = 3 then USER4
                else if length uts = 4 then USER5
                else if length uts = 5 then USER6
                else if length uts = 6 then USER7
                else if length uts = 7 then USER8
                else if length uts = 8 then USER9
                else if length uts = 9 then USER10
                else if length uts = 10 then USER11
                else if length uts = 11 then USER12
                else TEXT_TYPES)
      in (id, if id \<noteq> TEXT_TYPES then uts @ [(name, id)] else uts))"

fun lookupUserTextStyle :: "userTextStyles \<Rightarrow> string \<Rightarrow> TextStyleType" where
  "lookupUserTextStyle [] name = TEXT_TYPES"
| "lookupUserTextStyle ((n, ss) # uts) name =
     (if n = name then ss else lookupUserTextStyle uts name)"

text \<open>A run of calls of \<open>addUserTextStyle\<close>, one per name: the answers and the final list.\<close>

fun addUserTextStyles ::
  "string list \<Rightarrow> userTextStyles \<Rightarrow> TextStyleType list \<times> userTextStyles" where
  "addUserTextStyles [] uts = ([], uts)"
| "addUserTextStyles (name # names) uts =
     (let (id, uts') = addUserTextStyle name uts;
          (ids, uts'') = addUserTextStyles names uts'
      in (id # ids, uts''))"

section \<open>Locations and the tick/track cursor\<close>

subsection \<open>Fractions, locations and measures\<close>

text \<open>
  Modelled from the spec: the class \<open>Fraction\<close> (\<^verbatim>\<open>libmscore/fraction.h\<close>) is not among
  the sources. The spec calls it "a rational measure of time position", which
  \<open>setTick\<close> and \<open>incTick\<close> "reduce to lowest terms". Its values are the rational numbers
  here, so \<open>+\<close>, \<open>-\<close> and \<open>==\<close> are those of \<open>rat\<close>, and reducing a fraction, which
  keeps its value, returns it as it is.
\<close>

type_synonym Fraction = rat

definition reduced :: "Fraction \<Rightarrow> Fraction" where
  "reduced f = f"

text \<open>
  Modelled from the spec: \<open>Fraction::ticks\<close> and \<open>Fraction::fromTicks\<close> are not among the
  sources either; the spec only speaks of a "cached integer-tick mirror". The functions
  of the cursor take them as the parameters \<open>ticks\<close> and \<open>fromTicks\<close>. Where a concrete
  pair is needed for an example, it is the following one: time is counted in
  \<open>4 * division\<close> ticks per whole note, and a fraction is rounded to the nearest tick.
\<close>

definition ticks_of :: "int \<Rightarrow> Fraction \<Rightarrow> int" where
  "ticks_of division f = \<lfloor>f * of_int (4 * division) + 1 / 2\<rfloor>"

definition fromTicks_of :: "int \<Rightarrow> int \<Rightarrow> Fraction" where
  "fromTicks_of division t = of_int t / of_int (4 * division)"

text \<open>
  Modelled from the spec: the class \<open>Location\<close> (\<^verbatim>\<open>libmscore/location.h\<close>) is not among
  the sources. The spec gives it the fields \<open>track\<close>, \<open>frac\<close>, \<open>measureIndex\<close> and
  \<open>isRelative\<close>, whose defaults are "sentinel unset values": \<open>absDefaults\<close> for an
  absolute location. \<open>toAbsolute\<close> is the spec's "add the relative offset to the cursor's
  present absolute position"; it leaves an absolute location alone.
\<close>

record Location =
  loc_track :: int
  loc_frac :: Fraction
  loc_measure :: int
  loc_rel :: bool

definition absDefaults :: int where
  "absDefaults = - 2147483648"

definition Location_absolute :: Location where
  "Location_absolute =
     \<lparr>loc_track = absDefaults, loc_frac = of_int absDefaults, loc_measure = absDefaults,
      loc_rel = False\<rparr>"

definition isRelative :: "Location \<Rightarrow> bool" where
  "isRelative l = loc_rel l"

definition toAbsolute :: "Location \<Rightarrow> Location \<Rightarrow> Location" where
  "toAbsolute l ref =
     (if \<not> isRelative l then l
      else \<lparr>loc_track = loc_track l + loc_track ref,
            loc_frac = loc_frac l + loc_frac ref,
            loc_measure = loc_measure l + loc_measure ref,
            loc_rel = False\<rparr>)"

text \<open>Of a measure the cursor reads its start tick (\<open>Measure::tick()\<close>).\<close>

record Measure =
  measure_tick :: Fraction

subsection \<open>The cursor\<close>

text \<open>
  The members \<open>_tick\<close>, \<open>_intTick\<close>, \<open>_track\<close>, \<open>_trackOffset\<close>, \<open>_tickOffset\<close>,
  \<open>_curMeasure\<close>, \<open>_curMeasureIdx\<close> and \<open>_pasteMode\<close> of the reader. \<open>_curMeasure\<close> is
  a pointer that may be null (\<open>None\<close>): \<open>rtick\<close> tests it.
\<close>

text \<open>
  \<open>_intTick\<close> is a C++ \<open>int\<close>. A sum of tick counts that leaves the 32-bit range wraps
  around; \<open>int32\<close> is that wrap-around, written out.
\<close>

definition int32 :: "int \<Rightarrow> int" where
  "int32 x = (x + 2147483648) mod 4294967296 - 2147483648"

record cursor =
  r_tick :: Fraction
  r_intTick :: int
  r_track :: int
  r_trackOffset :: int
  r_tickOffset :: Fraction
  r_curMeasure :: "Measure option"
  r_curMeasureIdx :: int
  r_pasteMode :: bool

text \<open>
  Modelled from the spec: the accessors \<open>track()\<close>, \<open>tick()\<close>, \<open>pasteMode()\<close>,
  \<open>currentMeasureIndex()\<close>, \<open>currentMeasure()\<close> and \<open>setTrack\<close> are inline functions of
  \<^verbatim>\<open>xml.h\<close>, which is not among the sources. The offsets are "applied when content is
  pasted at a non-zero insertion point": \<open>track()\<close> and \<open>tick()\<close> report the position with
  the offset added, which is what \<open>setLocation\<close> takes off again.
\<close>

definition track :: "cursor \<Rightarrow> int" where
  "track c = r_track c + r_trackOffset c"

definition tick :: "cursor \<Rightarrow> Fraction" where
  "tick c = r_tick c + r_tickOffset c"

definition pasteMode :: "cursor \<Rightarrow> bool" where
  "pasteMode c = r_pasteMode c"

definition currentMeasureIndex :: "cursor \<Rightarrow> int" where
  "currentMeasureIndex c = r_curMeasureIdx c"

definition currentMeasure :: "cursor \<Rightarrow> Measure option" where
  "currentMeasure c = r_curMeasure c"

definition setTrack :: "int \<Rightarrow> cursor \<Rightarrow> cursor" where
  "setTrack v c = c\<lparr>r_track := v\<rparr>"

definition rtick :: "cursor \<Rightarrow> Fraction" where
  "rtick c =
     (case r_curMeasure c of Some m \<Rightarrow> r_tick c - measure_tick m | None \<Rightarrow> r_tick c)"

definition setTick :: "(Fraction \<Rightarrow> int) \<Rightarrow> Fraction \<Rightarrow> cursor \<Rightarrow> cursor" where
  "setTick ticks f c = (let t = reduced f in c\<lparr>r_tick := t, r_intTick := ticks t\<rparr>)"

definition incTick :: "(Fraction \<Rightarrow> int) \<Rightarrow> Fraction \<Rightarrow> cursor \<Rightarrow> cursor" where
  "incTick ticks f c =
     c\<lparr>r_tick := reduced (r_tick c + f), r_intTick := int32 (r_intTick c + ticks f)\<rparr>"

definition fillLocation :: "Location \<Rightarrow> bool \<Rightarrow> cursor \<Rightarrow> Location" where
  "fillLocation l forceAbsFrac c =
     (let defaults = Location_absolute;
          absFrac = (pasteMode c \<or> forceAbsFrac);
          l1 = (if loc_track l = loc_track defaults then l\<lparr>loc_track := track c\<rparr> else l);
          l2 = (if loc_frac l1 = loc_frac defaults
                then l1\<lparr>loc_frac := (if absFrac then tick c else rtick c)\<rparr> else l1);
          l3 = (if loc_measure l2 = loc_measure defaults
                then l2\<lparr>loc_measure := (if absFrac then 0 else currentMeasureIndex c)\<rparr>
                else l2)
      in l3)"

text \<open>
  \<open>location(bool forceAbsFrac)\<close>; \<open>setLocation\<close> calls it without an argument, that is
  with the default \<open>False\<close>.
\<close>

definition location :: "bool \<Rightarrow> cursor \<Rightarrow> Location" where
  "location forceAbsFrac c = fillLocation Location_absolute forceAbsFrac c"

text \<open>
  \<open>setLocation\<close> can stop in two ways that are results here: \<open>Q_ASSERT\<close> finds the
  measure index of the location different from the cursor's, or \<open>currentMeasure()\<close>
  is null where its tick is read. \<open>Q_ASSERT\<close> is checked in a debug build and is
  compiled out in a release build (\<open>QT_NO_DEBUG\<close>): the parameter \<open>assertsOn\<close> says
  which build runs, and in a release build the code goes on to \<open>incTick\<close>.
\<close>

datatype cursor_error = AssertFailed | NullMeasure

function setLocation ::
  "bool \<Rightarrow> (Fraction \<Rightarrow> int) \<Rightarrow> (int \<Rightarrow> Fraction) \<Rightarrow> Location \<Rightarrow> cursor
   \<Rightarrow> cursor_error + cursor" where
  "setLocation assertsOn ticks fromTicks l c =
     (if isRelative l then
        (let newLoc = toAbsolute l (location False c);
             intTicks = ticks (loc_frac l)
         in if r_tick c = fromTicks (int32 (r_intTick c + intTicks))
            then Inr (setTrack (loc_track newLoc - r_trackOffset c)
                        (c\<lparr>r_intTick := int32 (r_intTick c + intTicks)\<rparr>))
            else setLocation assertsOn ticks fromTicks newLoc c)
      else
        (let c1 = setTrack (loc_track l - r_trackOffset c) c;
             c2 = setTick ticks (loc_frac l - r_tickOffset c1) c1
         in if \<not> pasteMode c2 then
              (if assertsOn \<and> loc_measure l \<noteq> currentMeasureIndex c2 then Inl AssertFailed
               else case currentMeasure c2 of
                      None \<Rightarrow> Inl NullMeasure
                    | Some m \<Rightarrow> Inr (incTick ticks (measure_tick m) c2))
            else Inr c2))"
  by pat_completeness auto
termination
  by (relation "measure (\<lambda>(assertsOn, ticks, fromTicks, l, c). if isRelative l then 1 else 0)")
     (auto simp: toAbsolute_def isRelative_def)

declare setLocation.simps [simp del]

text \<open>
  The two ways through \<open>setLocation\<close> for a relative location, named: the test that
  chooses the fast path, the cursor the fast path leaves, and the slow path, which is
  \<open>setLocation\<close> again on the location made absolute. \<open>setLocation_depth\<close> counts the
  nested calls that \<open>setLocation\<close> makes of itself.
\<close>

definition fastPathTaken ::
  "(Fraction \<Rightarrow> int) \<Rightarrow> (int \<Rightarrow> Fraction) \<Rightarrow> Location \<Rightarrow> cursor \<Rightarrow> bool" where
  "fastPathTaken ticks fromTicks l c =
     (r_tick c = fromTicks (int32 (r_intTick c + ticks (loc_frac l))))"

definition fastPath :: "(Fraction \<Rightarrow> int) \<Rightarrow> Location \<Rightarrow> cursor \<Rightarrow> cursor" where
  "fastPath ticks l c =
     setTrack (loc_track (toAbsolute l (location False c)) - r_trackOffset c)
       (c\<lparr>r_intTick := int32 (r_intTick c + ticks (loc_frac l))\<rparr>)"

definition slowPath ::
  "bool \<Rightarrow> (Fraction \<Rightarrow> int) \<Rightarrow> (int \<Rightarrow> Fraction) \<Rightarrow> Location \<Rightarrow> cursor
   \<Rightarrow> cursor_error + cursor" where
  "slowPath assertsOn ticks fromTicks l c =
     setLocation assertsOn ticks fromTicks (toAbsolute l (location False c)) c"

function setLocation_depth ::
  "(Fraction \<Rightarrow> int) \<Rightarrow> (int \<Rightarrow> Fraction) \<Rightarrow> Location \<Rightarrow> cursor \<Rightarrow> nat" where
  "setLocation_depth ticks fromTicks l c =
     (if isRelative l then
        (if r_tick c = fromTicks (int32 (r_intTick c + ticks (loc_frac l))) then 0
         else 1 + setLocation_depth ticks fromTicks (toAbsolute l (location False c)) c)
      else 0)"
  by pat_completeness auto
termination
  by (relation "measure (\<lambda>(ticks, fromTicks, l, c). if isRelative l then 1 else 0)")
     (auto simp: toAbsolute_def isRelative_def)

declare setLocation_depth.simps [simp del]

section \<open>Connector fragments\<close>

subsection \<open>Fragments and their links\<close>

text \<open>
  Modelled from the spec: the class \<open>ConnectorInfoReader\<close> (\<^verbatim>\<open>libmscore/connector.h\<close>)
  is not among the sources. The reader owns its fragments through the vectors
  \<open>_connectors\<close> and \<open>_pendingConnectors\<close>; a fragment is named here by its address.
  The spec gives a fragment the links \<open>prev\<close> and \<open>next\<close> to "its immediate neighbor in
  the chain"; \<open>ci_connector\<close> is the element that the fragment holds until it is
  released. \<open>forceConnect\<close> is the spec's "force-join them", and \<open>releaseConnector\<close>
  hands the held element out and leaves the fragment without one.
\<close>

type_synonym ref = nat

record 'e ConnectorInfoReader =
  ci_prev :: "ref option"
  ci_next :: "ref option"
  ci_connector :: "'e option"

type_synonym 'e heap = "ref \<Rightarrow> 'e ConnectorInfoReader"

definition forceConnect :: "ref \<Rightarrow> ref \<Rightarrow> 'e heap \<Rightarrow> 'e heap" where
  "forceConnect a b h =
     (let h1 = h(a := (h a)\<lparr>ci_next := Some b\<rparr>)
      in h1(b := (h1 b)\<lparr>ci_prev := Some a\<rparr>))"

definition releaseConnector :: "ref \<Rightarrow> 'e heap \<Rightarrow> 'e option \<times> 'e heap" where
  "releaseConnector c h = (ci_connector (h c), h(c := (h c)\<lparr>ci_connector := None\<rparr>))"

text \<open>
  The other member functions of a fragment that the reader calls are parameters,
  gathered in a record: \<open>update()\<close>, \<open>c2->connect(c1)\<close> with its answer,
  \<open>finished()\<close>, \<open>addToScore(pasteMode)\<close> and \<open>start()\<close>. Each may read and change
  the fragments.
\<close>

record 'e connector_ops =
  op_update :: "ref \<Rightarrow> 'e heap \<Rightarrow> 'e heap"
  op_connect :: "ref \<Rightarrow> ref \<Rightarrow> 'e heap \<Rightarrow> bool \<times> 'e heap"
  op_finished :: "'e heap \<Rightarrow> ref \<Rightarrow> bool"
  op_addToScore :: "ref \<Rightarrow> bool \<Rightarrow> 'e heap \<Rightarrow> 'e heap"
  op_start :: "'e heap \<Rightarrow> ref \<Rightarrow> ref"

text \<open>
  The connector pool of the reader: the two vectors, the fragments, the reader's paste
  mode, and \<open>score\<close>, the record of the calls of \<open>addToScore\<close> in their order, each
  with the fragment it was called on and the paste mode it was given.
\<close>

record 'e pool =
  connectors :: "ref list"
  pendingConnectors :: "ref list"
  heap :: "'e heap"
  score :: "(ref \<times> bool) list"
  p_pasteMode :: bool

subsection \<open>removeConnector\<close>

text \<open>
  The two loops of \<open>removeConnector\<close>. The first walks \<open>prev\<close> to the start of the
  chain; the second walks \<open>next\<close> and erases each fragment from \<open>_connectors\<close>, the
  first entry that holds its address. Neither loop ends on links that run in a circle:
  the result is \<open>None\<close> then.
\<close>

partial_function (option) chainStart :: "'e heap \<Rightarrow> ref \<Rightarrow> ref option" where
  "chainStart h c = (case ci_prev (h c) of None \<Rightarrow> Some c | Some p \<Rightarrow> chainStart h p)"

partial_function (option) eraseChain :: "'e heap \<Rightarrow> ref option \<Rightarrow> ref list \<Rightarrow> ref list option" where
  "eraseChain h c cs =
     (case c of None \<Rightarrow> Some cs | Some x \<Rightarrow> eraseChain h (ci_next (h x)) (remove1 x cs))"

definition removeConnector :: "'e heap \<Rightarrow> ref \<Rightarrow> ref list \<Rightarrow> ref list option" where
  "removeConnector h c cs =
     (case chainStart h c of None \<Rightarrow> None | Some s \<Rightarrow> eraseChain h (Some s) cs)"

subsection \<open>addConnectorInfo\<close>

text \<open>
  \<open>connectLoop\<close> is the loop of \<open>addConnectorInfo\<close> over \<open>_connectors\<close>, the new
  fragment \<open>c1\<close> included at the back; it stops at the first fragment whose \<open>connect\<close>
  answers true.
\<close>

fun connectLoop :: "'e connector_ops \<Rightarrow> ref \<Rightarrow> ref list \<Rightarrow> 'e pool \<Rightarrow> 'e pool option" where
  "connectLoop ops c1 [] s = Some s"
| "connectLoop ops c1 (c2 # rest) s =
     (case op_connect ops c2 c1 (heap s) of
        (True, h) \<Rightarrow>
          if op_finished ops h c2 then
            (let h' = op_addToScore ops c2 (p_pasteMode s) h
             in case removeConnector h' c2 (connectors s) of
                  None \<Rightarrow> None
                | Some cs \<Rightarrow>
                    Some (s\<lparr>heap := h', score := score s @ [(c2, p_pasteMode s)],
                            connectors := cs\<rparr>))
          else Some (s\<lparr>heap := h\<rparr>)
      | (False, h) \<Rightarrow> connectLoop ops c1 rest (s\<lparr>heap := h\<rparr>))"

definition addConnectorInfo :: "'e connector_ops \<Rightarrow> ref \<Rightarrow> 'e pool \<Rightarrow> 'e pool option" where
  "addConnectorInfo ops c s =
     (let cs = connectors s @ [c];
          s1 = s\<lparr>connectors := cs, heap := op_update ops c (heap s)\<rparr>
      in connectLoop ops c cs s1)"

subsection \<open>reconnectBrokenConnectors\<close>

definition INT_MAX :: int where
  "INT_MAX = 2147483647"

text \<open>
  The two nested loops that fill \<open>brokenPairs\<close>: \<open>i\<close> from 1, \<open>j\<close> below \<open>i\<close>.
  \<open>connectionDistance\<close> is a parameter; a candidate is a distance with the
  pair (from, to). Distances are integers here; in the source \<open>-d\<close> stays in the
  32-bit range for every \<open>d\<close> but the least int.
\<close>

definition brokenPairs :: "(ref \<Rightarrow> ref \<Rightarrow> int) \<Rightarrow> ref list \<Rightarrow> (int \<times> ref \<times> ref) list" where
  "brokenPairs connectionDistance cs =
     concat (map (\<lambda>i. map (\<lambda>j.
         (let c1 = cs ! i; c2 = cs ! j; d = connectionDistance c1 c2
          in if d \<ge> 0 then (d, c1, c2) else (- d, c2, c1))) [0..<i]) [1..<length cs])"

text \<open>The loop over the sorted candidates.\<close>

fun joinPairs :: "(int \<times> ref \<times> ref) list \<Rightarrow> 'e heap \<Rightarrow> 'e heap" where
  "joinPairs [] h = h"
| "joinPairs ((d, a, b) # ps) h =
     (if d = INT_MAX then joinPairs ps h
      else if ci_next (h a) \<noteq> None \<or> ci_prev (h b) \<noteq> None then joinPairs ps h
      else joinPairs ps (forceConnect a b h))"

text \<open>
  \<open>std::sort\<close> with \<open>distanceSort\<close> leaves the candidates in ascending order of
  distance and promises no order among equal distances. \<open>distanceSorted bp sp\<close> says
  that \<open>sp\<close> is such an arrangement of \<open>bp\<close>; the function below takes the stable one.
\<close>

definition distanceSorted :: "(int \<times> ref \<times> ref) list \<Rightarrow> (int \<times> ref \<times> ref) list \<Rightarrow> bool" where
  "distanceSorted bp sp = (mset sp = mset bp \<and> sorted (map fst sp))"

text \<open>
  The last loop: \<open>addToScore\<close> and \<open>removeConnector\<close> for each start of a finished
  chain. The source keeps the starts in a \<open>QSet\<close>, whose order of iteration is not
  fixed; here they are taken in the order of \<open>_connectors\<close>.
\<close>

fun commitChains :: "'e connector_ops \<Rightarrow> ref list \<Rightarrow> 'e pool \<Rightarrow> 'e pool option" where
  "commitChains ops [] s = Some s"
| "commitChains ops (c # cs) s =
     (let h' = op_addToScore ops c (p_pasteMode s) (heap s)
      in case removeConnector h' c (connectors s) of
           None \<Rightarrow> None
         | Some cs' \<Rightarrow>
             commitChains ops cs
               (s\<lparr>heap := h', score := score s @ [(c, p_pasteMode s)], connectors := cs'\<rparr>))"

definition reconnectBrokenConnectors ::
  "'e connector_ops \<Rightarrow> (ref \<Rightarrow> ref \<Rightarrow> int) \<Rightarrow> 'e pool \<Rightarrow> 'e pool option" where
  "reconnectBrokenConnectors ops connectionDistance s =
     (if connectors s = [] then Some s
      else
        (let h = joinPairs (sort_key fst (brokenPairs connectionDistance (connectors s))) (heap s);
             reconnected =
               remdups (map (op_start ops h) (filter (op_finished ops h) (connectors s)))
         in commitChains ops reconnected (s\<lparr>heap := h\<rparr>)))"

subsection \<open>The destructor\<close>

text \<open>
  \<open>~XmlReader\<close>: the loop over \<open>_connectors\<close>, which deletes a released element
  unless it is a tuplet, and the loop over \<open>_pendingConnectors\<close>, which deletes what
  \<open>releaseConnector\<close> returns (deleting a null pointer does nothing). \<open>isTuplet\<close> is a
  parameter. The result is the fragments after the release and the elements deleted,
  in order.
\<close>

fun releaseActive :: "('e \<Rightarrow> bool) \<Rightarrow> ref list \<Rightarrow> 'e heap \<Rightarrow> 'e list \<Rightarrow> 'e heap \<times> 'e list" where
  "releaseActive isTuplet [] h deleted = (h, deleted)"
| "releaseActive isTuplet (c # cs) h deleted =
     (let (conn, h') = releaseConnector c h
      in case conn of
           Some x \<Rightarrow>
             if \<not> isTuplet x then releaseActive isTuplet cs h' (deleted @ [x])
             else releaseActive isTuplet cs h' deleted
         | None \<Rightarrow> releaseActive isTuplet cs h' deleted)"

fun releasePending :: "ref list \<Rightarrow> 'e heap \<Rightarrow> 'e list \<Rightarrow> 'e heap \<times> 'e list" where
  "releasePending [] h deleted = (h, deleted)"
| "releasePending (c # cs) h deleted =
     (let (conn, h') = releaseConnector c h
      in case conn of
           Some x \<Rightarrow> releasePending cs h' (deleted @ [x])
         | None \<Rightarrow> releasePending cs h' deleted)"

definition destroyXmlReader :: "('e \<Rightarrow> bool) \<Rightarrow> 'e pool \<Rightarrow> 'e heap \<times> 'e list" where
  "destroyXmlReader isTuplet s =
     (if connectors s \<noteq> [] \<or> pendingConnectors s \<noteq> [] then
        (let (h1, d1) = releaseActive isTuplet (connectors s) (heap s) []
         in releasePending (pendingConnectors s) h1 d1)
      else (heap s, []))"

text \<open>The fragments after \<open>releaseConnector\<close> was called on each fragment of \<open>R\<close>.\<close>

definition released :: "ref set \<Rightarrow> 'e heap \<Rightarrow> 'e heap" where
  "released R h = (\<lambda>r. if r \<in> R then (h r)\<lparr>ci_connector := None\<rparr> else h r)"

subsection \<open>Chains\<close>

text \<open>
  The invariant that the theorems about chains assume. \<open>linked h ch\<close>: each fragment
  of the list \<open>ch\<close> has the next one as its \<open>next\<close> and is that one's \<open>prev\<close>.
  \<open>isChain h ch\<close>: \<open>ch\<close> is a whole chain, from a fragment without \<open>prev\<close> to one
  without \<open>next\<close>, and no fragment occurs twice. \<open>linksConsistent h\<close>: \<open>b\<close> is the
  \<open>next\<close> of \<open>a\<close> exactly when \<open>a\<close> is the \<open>prev\<close> of \<open>b\<close>, so that no fragment is
  the successor of two fragments.
\<close>

fun linked :: "'e heap \<Rightarrow> ref list \<Rightarrow> bool" where
  "linked h [] = True"
| "linked h [x] = True"
| "linked h (x # y # r) =
     (ci_next (h x) = Some y \<and> ci_prev (h y) = Some x \<and> linked h (y # r))"

definition isChain :: "'e heap \<Rightarrow> ref list \<Rightarrow> bool" where
  "isChain h ch =
     (ch \<noteq> [] \<and> distinct ch \<and> ci_prev (h (hd ch)) = None \<and> ci_next (h (last ch)) = None
      \<and> linked h ch)"

definition linksConsistent :: "'e heap \<Rightarrow> bool" where
  "linksConsistent h = (\<forall>a b. ci_next (h a) = Some b \<longleftrightarrow> ci_prev (h b) = Some a)"

section \<open>Tuplets\<close>

text \<open>
  \<open>_tuplets\<close> maps an id to a pointer to a tuplet; \<open>tuplets\<close> is the table as the two
  loops of \<open>checkTuplets\<close> walk it, entry by entry (the table is a hash; the order is
  the order of its iteration). The class \<open>Tuplet\<close> (\<^verbatim>\<open>libmscore/tuplet.h\<close>) is not
  among the sources: the state of all tuplet objects is a value of a type \<open>'t\<close>, and
  the member functions that \<open>checkTuplets\<close> calls are parameters that read or change
  it. \<open>freed\<close> holds the tuplets that were deleted, and \<open>calls\<close> records the calls made
  on tuplets in their order. Calling a member function on a deleted tuplet is the
  error \<open>UseAfterFree\<close>.
\<close>

datatype tuplet_call =
  Delete ref | SortElements ref | SanitizeTuplet ref | AddMissingElements ref

datatype tuplet_error = UseAfterFree

record 't tuplet_ops =
  t_elementsEmpty :: "'t \<Rightarrow> ref \<Rightarrow> bool"
  t_sortElements :: "ref \<Rightarrow> 't \<Rightarrow> 't"
  t_sanitizeTuplet :: "ref \<Rightarrow> 't \<Rightarrow> 't"
  t_addMissingElements :: "ref \<Rightarrow> 't \<Rightarrow> 't"

record 't tuplet_pool =
  tuplets :: "(int \<times> ref) list"
  objects :: "'t"
  freed :: "ref list"
  calls :: "tuplet_call list"

fun checkTuplets_pass1 ::
  "'t tuplet_ops \<Rightarrow> (int \<times> ref) list \<Rightarrow> 't tuplet_pool \<Rightarrow> tuplet_error + 't tuplet_pool" where
  "checkTuplets_pass1 ops [] s = Inr s"
| "checkTuplets_pass1 ops ((i, tuplet) # ts) s =
     (if tuplet \<in> set (freed s) then Inl UseAfterFree
      else if t_elementsEmpty ops (objects s) tuplet then
        checkTuplets_pass1 ops ts
          (s\<lparr>freed := tuplet # freed s, calls := calls s @ [Delete tuplet]\<rparr>)
      else
        checkTuplets_pass1 ops ts
          (s\<lparr>objects := t_sanitizeTuplet ops tuplet (t_sortElements ops tuplet (objects s)),
             calls := calls s @ [SortElements tuplet, SanitizeTuplet tuplet]\<rparr>))"

fun checkTuplets_pass2 ::
  "'t tuplet_ops \<Rightarrow> (int \<times> ref) list \<Rightarrow> 't tuplet_pool \<Rightarrow> tuplet_error + 't tuplet_pool" where
  "checkTuplets_pass2 ops [] s = Inr s"
| "checkTuplets_pass2 ops ((i, tuplet) # ts) s =
     (if tuplet \<in> set (freed s) then Inl UseAfterFree
      else
        checkTuplets_pass2 ops ts
          (s\<lparr>objects := t_addMissingElements ops tuplet (objects s),
             calls := calls s @ [AddMissingElements tuplet]\<rparr>))"

definition checkTuplets :: "'t tuplet_ops \<Rightarrow> 't tuplet_pool \<Rightarrow> tuplet_error + 't tuplet_pool" where
  "checkTuplets ops s =
     (case checkTuplets_pass1 ops (tuplets s) s of
        Inl e \<Rightarrow> Inl e
      | Inr s1 \<Rightarrow> checkTuplets_pass2 ops (tuplets s1) s1)"

section \<open>Properties of the element readers\<close>

lemmas toInt_eval = toInt_def trimmed_def isSpace_def digitValue_def

text \<open>
  What \<open>indexOf\<close> answers: \<open>-1\<close> for a character that does not occur, and else the
  length of the text before its first occurrence.
\<close>

lemma indexOf_absent: "c \<notin> set s \<Longrightarrow> indexOf s c = - 1"
  by (induction s) (auto simp: Let_def)

lemma indexOf_first: "c \<notin> set a \<Longrightarrow> indexOf (a @ c # b) c = int (length a)"
  by (induction a) (auto simp: Let_def)

text \<open>
  C1. \<open>readFraction\<close> accepts both persisted forms. The text \<open>3/8\<close> gives the fraction
  built from 3 and 8, whatever the attributes are; the attributes \<open>z=1\<close>, \<open>n=4\<close> with no
  text give the fraction built from 1 and 4; with no attributes (so that \<open>z\<close> and \<open>n\<close>
  take their defaults 0 and 1), or with \<open>z=0\<close> and \<open>n=1\<close> given, the text \<open>5\<close>, which
  has no slash, gives what \<open>Fraction::fromTicks\<close> makes of the integer 5, the value
  of five ticks. A text that is not empty takes precedence: the result is the same
  for any two attribute lists. In general: with no text the result is the fraction
  built from the integers read of the attributes \<open>z\<close> and \<open>n\<close> (defaults \<open>0\<close> and
  \<open>1\<close>); a text without a slash gives \<open>fromTicks\<close> of the integer read of the text; a
  text \<open>a/b\<close>, cut at its first slash, gives the fraction built from the integers
  read of \<open>a\<close> and of \<open>b\<close>.
\<close>

theorem readFraction_forms:
  "readFraction Fraction fromTicks \<lparr>attributes = as, elementText = ''3/8''\<rparr> = Fraction 3 8
   \<and> readFraction Fraction fromTicks
         \<lparr>attributes = [(''z'', ''1''), (''n'', ''4'')], elementText = ''''\<rparr> = Fraction 1 4
   \<and> readFraction Fraction fromTicks \<lparr>attributes = [], elementText = ''5''\<rparr> = fromTicks 5
   \<and> readFraction Fraction fromTicks
         \<lparr>attributes = [(''z'', ''0''), (''n'', ''1'')], elementText = ''5''\<rparr> = fromTicks 5
   \<and> readFraction Fraction fromTicks \<lparr>attributes = as, elementText = c # cs\<rparr>
       = readFraction Fraction fromTicks \<lparr>attributes = bs, elementText = c # cs\<rparr>
   \<and> (elementText e = [] \<longrightarrow>
        readFraction Fraction fromTicks e
          = Fraction (toInt (attribute e ''z'' ''0'')) (toInt (attribute e ''n'' ''1'')))
   \<and> (elementText e \<noteq> [] \<and> CHR ''/'' \<notin> set (elementText e) \<longrightarrow>
        readFraction Fraction fromTicks e = fromTicks (toInt (elementText e)))
   \<and> (elementText e = a @ CHR ''/'' # b \<and> CHR ''/'' \<notin> set a \<longrightarrow>
        readFraction Fraction fromTicks e = Fraction (toInt a) (toInt b))"
proof (intro conjI)
  show "readFraction Fraction fromTicks \<lparr>attributes = as, elementText = ''3/8''\<rparr> = Fraction 3 8"
    by (simp add: readFraction_def readElementText_def leftRef_def midRef_def toInt_eval)
  show "readFraction Fraction fromTicks
       \<lparr>attributes = [(''z'', ''1''), (''n'', ''4'')], elementText = ''''\<rparr> = Fraction 1 4"
    by (simp add: readFraction_def readElementText_def attribute_def attrs_hasAttribute_def
        attrs_value_def toInt_eval)
  show "readFraction Fraction fromTicks \<lparr>attributes = [], elementText = ''5''\<rparr> = fromTicks 5"
    by (simp add: readFraction_def readElementText_def toInt_eval)
  show "readFraction Fraction fromTicks
       \<lparr>attributes = [(''z'', ''0''), (''n'', ''1'')], elementText = ''5''\<rparr> = fromTicks 5"
    by (simp add: readFraction_def readElementText_def toInt_eval)
  show "readFraction Fraction fromTicks \<lparr>attributes = as, elementText = c # cs\<rparr>
     = readFraction Fraction fromTicks \<lparr>attributes = bs, elementText = c # cs\<rparr>"
    by (simp add: readFraction_def readElementText_def Let_def)
  show "elementText e = [] \<longrightarrow>
        readFraction Fraction fromTicks e
          = Fraction (toInt (attribute e ''z'' ''0'')) (toInt (attribute e ''n'' ''1''))"
    by (simp add: readFraction_def readElementText_def Let_def)
  show "elementText e \<noteq> [] \<and> CHR ''/'' \<notin> set (elementText e) \<longrightarrow>
        readFraction Fraction fromTicks e = fromTicks (toInt (elementText e))"
    by (simp add: readFraction_def readElementText_def Let_def indexOf_absent)
  show "elementText e = a @ CHR ''/'' # b \<and> CHR ''/'' \<notin> set a \<longrightarrow>
        readFraction Fraction fromTicks e = Fraction (toInt a) (toInt b)"
  proof (intro impI, elim conjE)
    assume t: "elementText e = a @ CHR ''/'' # b" and n: "CHR ''/'' \<notin> set a"
    have i: "indexOf (elementText e) CHR ''/'' = int (length a)"
      unfolding t by (rule indexOf_first [OF n])
    have l: "leftRef (elementText e) (int (length a)) = a"
      by (simp add: leftRef_def t)
    have m: "midRef (elementText e) (int (length a) + 1) = b"
      by (simp add: midRef_def t nat_add_distrib)
    have ne: "elementText e \<noteq> []"
      by (simp add: t)
    show "readFraction Fraction fromTicks e = Fraction (toInt a) (toInt b)"
      by (simp add: readFraction_def readElementText_def Let_def i l m ne)
  qed
qed

text \<open>
  The text \<open>7/16\<close> beside the attributes \<open>z=1\<close>, \<open>n=4\<close>, the text \<open>960\<close>, and the
  attributes alone, with fractions as pairs and 480 ticks to the quarter note.
\<close>

theorem readFraction_forms_witness:
  "readFraction Pair (\<lambda>t. (t, 1920))
     \<lparr>attributes = [(''z'', ''1''), (''n'', ''4'')], elementText = ''7/16''\<rparr> = (7, 16)
   \<and> readFraction Pair (\<lambda>t. (t, 1920))
     \<lparr>attributes = [(''z'', ''1''), (''n'', ''4'')], elementText = ''960''\<rparr> = (960, 1920)
   \<and> readFraction Pair (\<lambda>t. (t, 1920))
     \<lparr>attributes = [(''z'', ''1''), (''n'', ''4'')], elementText = ''''\<rparr> = (1, 4)"
  using readFraction_forms [where Fraction = Pair and fromTicks = "\<lambda>t. (t, 1920)"
      and as = "[]" and bs = "[]" and c = "CHR ''7''" and cs = "[]"
      and e = "\<lparr>attributes = [(''z'', ''1''), (''n'', ''4'')], elementText = ''7/16''\<rparr>"
      and a = "''7''" and b = "''16''"]
    readFraction_forms [where Fraction = Pair and fromTicks = "\<lambda>t. (t, 1920)"
      and as = "[]" and bs = "[]" and c = "CHR ''7''" and cs = "[]"
      and e = "\<lparr>attributes = [(''z'', ''1''), (''n'', ''4'')], elementText = ''960''\<rparr>"
      and a = "''7''" and b = "''16''"]
    readFraction_forms [where Fraction = Pair and fromTicks = "\<lambda>t. (t, 1920)"
      and as = "[]" and bs = "[]" and c = "CHR ''7''" and cs = "[]"
      and e = "\<lparr>attributes = [(''z'', ''1''), (''n'', ''4'')], elementText = ''''\<rparr>"
      and a = "''7''" and b = "''16''"]
  by (simp add: attribute_def attrs_hasAttribute_def attrs_value_def toInt_eval)

text \<open>
  C8, as amended. When the first attribute named \<open>s\<close> has the text \<open>v\<close>, the accessors
  with a default return the conversion of \<open>v\<close> (the text itself for \<open>attribute\<close>); when
  no attribute is named \<open>s\<close> they return the default. The accessors without a default
  do not fail on a missing attribute: they convert the empty string, which is 0 for
  \<open>intAttribute\<close>.
\<close>

theorem attribute_accessors:
  "(map_of (attributes e) s = Some v \<longrightarrow>
      hasAttribute e s
      \<and> intAttribute_default e s d = toInt v
      \<and> doubleAttribute_default toDouble e s dd = toDouble v
      \<and> attribute e s ds = v)
   \<and> (map_of (attributes e) s = None \<longrightarrow>
      \<not> hasAttribute e s
      \<and> intAttribute_default e s d = d
      \<and> doubleAttribute_default toDouble e s dd = dd
      \<and> attribute e s ds = ds
      \<and> intAttribute e s = 0
      \<and> doubleAttribute toDouble e s = toDouble [])"
  by (simp add: hasAttribute_def intAttribute_default_def doubleAttribute_default_def
      attribute_def intAttribute_def doubleAttribute_def attrs_hasAttribute_def
      attrs_value_def toInt_eval)

text \<open>The accessors on an element with the one attribute \<open>r="17"\<close>.\<close>

theorem attribute_accessors_witness:
  "intAttribute_default \<lparr>attributes = [(''r'', ''17'')], elementText = []\<rparr> ''r'' 255 = 17
   \<and> attribute \<lparr>attributes = [(''r'', ''17'')], elementText = []\<rparr> ''r'' ''0'' = ''17''
   \<and> intAttribute_default \<lparr>attributes = [(''r'', ''17'')], elementText = []\<rparr> ''a'' 255 = 255
   \<and> intAttribute \<lparr>attributes = [(''r'', ''17'')], elementText = []\<rparr> ''a'' = 0"
  using attribute_accessors [where e = "\<lparr>attributes = [(''r'', ''17'')], elementText = []\<rparr>"
        and s = "''r''" and v = "''17''" and d = 255 and ds = "''0''"
        and toDouble = toInt and dd = 0]
    attribute_accessors [where e = "\<lparr>attributes = [(''r'', ''17'')], elementText = []\<rparr>"
        and s = "''a''" and d = 255 and ds = "''0''" and toDouble = toInt and dd = 0]
  by (simp add: toInt_eval)

text \<open>
  C8 as stated fails: \<open>intAttribute\<close> without a default, asked for the missing attribute
  \<open>r\<close>, returns the int 0, the value it also returns when \<open>r="0"\<close> is present. No
  signal tells the two apart.
\<close>

theorem intAttribute_absent_counterexample:
  "intAttribute \<lparr>attributes = [(''g'', ''7'')], elementText = []\<rparr> ''r'' = 0
   \<and> intAttribute \<lparr>attributes = [(''g'', ''7''), (''r'', ''0'')], elementText = []\<rparr> ''r'' = 0"
  by (simp add: intAttribute_def attrs_value_def toInt_eval)

text \<open>
  C10, as amended. When the text converts to a number (not to NaN), \<open>readDouble\<close>
  replaces a value below \<open>lo\<close> by \<open>lo\<close>, and, for \<open>lo <= hi\<close>, a value above \<open>hi\<close> by
  \<open>hi\<close>; a value from \<open>lo\<close> to \<open>hi\<close> is returned as it is; for \<open>lo <= hi\<close> the
  result lies in the closed interval from \<open>lo\<close> to \<open>hi\<close>.
\<close>

theorem readDouble_clamps:
  assumes "toDouble (readElementText e) \<noteq> NaN"
  shows "(dless (toDouble (readElementText e)) lo \<longrightarrow> readDouble toDouble lo hi e = lo)
     \<and> (dle lo hi \<longrightarrow> dless hi (toDouble (readElementText e))
          \<longrightarrow> readDouble toDouble lo hi e = hi)
     \<and> (dle lo hi \<longrightarrow>
          dle lo (readDouble toDouble lo hi e) \<and> dle (readDouble toDouble lo hi e) hi)
     \<and> (dle lo (toDouble (readElementText e)) \<and> dle (toDouble (readElementText e)) hi
          \<longrightarrow> readDouble toDouble lo hi e = toDouble (readElementText e))"
proof -
  obtain v where v: "toDouble (readElementText e) = Num v"
    using assms by (cases "toDouble (readElementText e)") auto
  show ?thesis
    by (cases lo; cases hi) (auto simp: readDouble_def Let_def v)
qed

text \<open>Between 0 and 10, the text \<open>17\<close> gives 10 and the text \<open>7\<close> gives 7.\<close>

theorem readDouble_clamps_witness:
  "readDouble (\<lambda>s. Num (toInt s)) (Num 0) (Num 10) \<lparr>attributes = [], elementText = ''17''\<rparr>
     = Num 10
   \<and> dle (Num 0)
        (readDouble (\<lambda>s. Num (toInt s)) (Num 0) (Num 10)
           \<lparr>attributes = [], elementText = ''17''\<rparr>)
   \<and> readDouble (\<lambda>s. Num (toInt s)) (Num 0) (Num 10) \<lparr>attributes = [], elementText = ''7''\<rparr>
     = Num 7"
  using readDouble_clamps [where toDouble = "\<lambda>s. Num (toInt s)" and lo = "Num 0"
      and hi = "Num 10" and e = "\<lparr>attributes = [], elementText = ''17''\<rparr>"]
    readDouble_clamps [where toDouble = "\<lambda>s. Num (toInt s)" and lo = "Num 0"
      and hi = "Num 10" and e = "\<lparr>attributes = [], elementText = ''7''\<rparr>"]
  by (simp add: readElementText_def toInt_eval)

text \<open>
  C10 as stated fails for a text that converts to NaN (Qt's conversion reads the text
  \<open>nan\<close> so): both comparisons are false, NaN is returned, and \<open>0 <= NaN\<close> is false
  although \<open>0 <= 1\<close>.
\<close>

theorem readDouble_nan_counterexample:
  "\<not> dle (Num (0::int))
        (readDouble (\<lambda>s. if s = ''nan'' then NaN else Num (toInt s)) (Num 0) (Num 1)
           \<lparr>attributes = [], elementText = ''nan''\<rparr>)"
  by (simp add: readDouble_def readElementText_def)

section \<open>Properties of the user text styles\<close>

lemma length_thirteen:
  assumes "length (xs :: 'a list) = 13"
  obtains a b c d e f g h i j k l m where "xs = [a, b, c, d, e, f, g, h, i, j, k, l, m]"
proof -
  from assms obtain a b c d e f g h i j k l m
    where "xs = [a, b, c, d, e, f, g, h, i, j, k, l, m]"
    by (auto simp: numeral_eq_Suc length_Suc_conv)
  then show ?thesis using that by blast
qed

text \<open>
  C9. Thirteen calls of \<open>addUserTextStyle\<close> with distinct names, on a reader that has
  no user text style yet, answer \<open>USER1\<close> to \<open>USER12\<close> in the order of the calls and
  then \<open>TEXT_TYPES\<close>. Afterwards \<open>lookupUserTextStyle\<close> gives each of the first twelve
  names its slot and the thirteenth name \<open>TEXT_TYPES\<close>, not found.
\<close>

theorem addUserTextStyle_capacity:
  assumes "distinct names" and "length names = 13"
  shows "fst (addUserTextStyles names []) =
           [USER1, USER2, USER3, USER4, USER5, USER6, USER7, USER8, USER9, USER10, USER11,
            USER12, TEXT_TYPES]
     \<and> map (lookupUserTextStyle (snd (addUserTextStyles names []))) names =
           [USER1, USER2, USER3, USER4, USER5, USER6, USER7, USER8, USER9, USER10, USER11,
            USER12, TEXT_TYPES]"
proof -
  from assms(2) obtain a b c d e f g h i j k l m
    where names: "names = [a, b, c, d, e, f, g, h, i, j, k, l, m]" by (rule length_thirteen)
  have run: "addUserTextStyles [a, b, c, d, e, f, g, h, i, j, k, l, m] [] =
      ([USER1, USER2, USER3, USER4, USER5, USER6, USER7, USER8, USER9, USER10, USER11,
        USER12, TEXT_TYPES],
       [(a, USER1), (b, USER2), (c, USER3), (d, USER4), (e, USER5), (f, USER6), (g, USER7),
        (h, USER8), (i, USER9), (j, USER10), (k, USER11), (l, USER12)])"
    by (simp add: addUserTextStyle_def)
  from assms(1) have "distinct [a, b, c, d, e, f, g, h, i, j, k, l, m]"
    by (simp only: names)
  then show ?thesis
    unfolding names run by simp
qed

text \<open>Thirteen styles named \<open>a\<close> to \<open>m\<close>: \<open>l\<close> gets the last slot, \<open>m\<close> none.\<close>

theorem addUserTextStyle_capacity_witness:
  "fst (addUserTextStyles
          [''a'', ''b'', ''c'', ''d'', ''e'', ''f'', ''g'', ''h'', ''i'', ''j'', ''k'', ''l'', ''m''] [])
     = [USER1, USER2, USER3, USER4, USER5, USER6, USER7, USER8, USER9, USER10, USER11,
        USER12, TEXT_TYPES]
   \<and> lookupUserTextStyle
        (snd (addUserTextStyles
          [''a'', ''b'', ''c'', ''d'', ''e'', ''f'', ''g'', ''h'', ''i'', ''j'', ''k'', ''l'', ''m''] []))
        ''l'' = USER12
   \<and> lookupUserTextStyle
        (snd (addUserTextStyles
          [''a'', ''b'', ''c'', ''d'', ''e'', ''f'', ''g'', ''h'', ''i'', ''j'', ''k'', ''l'', ''m''] []))
        ''m'' = TEXT_TYPES"
  using addUserTextStyle_capacity
    [of "[''a'', ''b'', ''c'', ''d'', ''e'', ''f'', ''g'', ''h'', ''i'', ''j'', ''k'', ''l'', ''m'']"]
  by simp

section \<open>Properties of the cursor\<close>

text \<open>What \<open>location()\<close> fills in, and the two branches of \<open>setLocation\<close> unfolded once.\<close>

lemma location_fields:
  "loc_track (location False c) = track c"
  "loc_frac (location False c) = (if pasteMode c then tick c else rtick c)"
  "loc_measure (location False c) = (if pasteMode c then 0 else currentMeasureIndex c)"
  "loc_rel (location False c) = False"
  by (simp_all add: location_def fillLocation_def Location_absolute_def Let_def)

lemma setLocation_absolute:
  "\<not> loc_rel l \<Longrightarrow>
   setLocation assertsOn ticks fromTicks l c =
     (let c1 = setTrack (loc_track l - r_trackOffset c) c;
          c2 = setTick ticks (loc_frac l - r_tickOffset c1) c1
      in if \<not> pasteMode c2 then
           (if assertsOn \<and> loc_measure l \<noteq> currentMeasureIndex c2 then Inl AssertFailed
            else case currentMeasure c2 of
                   None \<Rightarrow> Inl NullMeasure
                 | Some m \<Rightarrow> Inr (incTick ticks (measure_tick m) c2))
         else Inr c2)"
  by (subst setLocation.simps) (simp add: isRelative_def)

lemma setLocation_relative_cases:
  "loc_rel l \<Longrightarrow>
   setLocation assertsOn ticks fromTicks l c =
     (if fastPathTaken ticks fromTicks l c then Inr (fastPath ticks l c)
      else slowPath assertsOn ticks fromTicks l c)"
  by (subst setLocation.simps)
     (simp add: isRelative_def fastPathTaken_def fastPath_def slowPath_def Let_def)

lemma toAbsolute_fields:
  "loc_rel l \<Longrightarrow> loc_track (toAbsolute l r) = loc_track l + loc_track r"
  "loc_rel l \<Longrightarrow> loc_frac (toAbsolute l r) = loc_frac l + loc_frac r"
  "loc_rel l \<Longrightarrow> loc_measure (toAbsolute l r) = loc_measure l + loc_measure r"
  "\<not> loc_rel (toAbsolute l r)"
  by (simp_all add: toAbsolute_def isRelative_def)

lemma setLocation_depth_le: "setLocation_depth ticks fromTicks l c \<le> 1"
proof -
  have abs: "setLocation_depth ticks fromTicks (toAbsolute l (location False c)) c = 0"
    by (subst setLocation_depth.simps) (simp add: isRelative_def toAbsolute_fields)
  show ?thesis
    by (subst setLocation_depth.simps) (simp add: abs)
qed

lemma slowPath_paste:
  assumes "loc_rel l" "pasteMode c"
  shows "slowPath assertsOn ticks fromTicks l c =
         Inr (c\<lparr>r_track := loc_track l + r_track c,
                r_tick := loc_frac l + r_tick c,
                r_intTick := ticks (loc_frac l + r_tick c)\<rparr>)"
  using assms
  by (simp add: slowPath_def setLocation_absolute toAbsolute_fields location_fields Let_def
      setTrack_def setTick_def pasteMode_def tick_def track_def reduced_def)

lemma slowPath_nopaste:
  assumes "loc_rel l" "\<not> pasteMode c"
  shows "slowPath assertsOn ticks fromTicks l c =
         (if assertsOn \<and> loc_measure l \<noteq> 0 then Inl AssertFailed
          else case currentMeasure c of
                 None \<Rightarrow> Inl NullMeasure
               | Some m \<Rightarrow>
                   Inr (c\<lparr>r_track := loc_track l + r_track c,
                          r_tick := loc_frac l + r_tick c - r_tickOffset c,
                          r_intTick :=
                            int32 (ticks (loc_frac l + (r_tick c - measure_tick m)
                                          - r_tickOffset c)
                                   + ticks (measure_tick m))\<rparr>))"
  using assms
  by (simp add: slowPath_def setLocation_absolute toAbsolute_fields location_fields Let_def
      setTrack_def setTick_def incTick_def pasteMode_def tick_def track_def reduced_def
      currentMeasure_def currentMeasureIndex_def rtick_def split: option.splits)

lemma fastPath_eq:
  assumes "loc_rel l"
  shows "fastPath ticks l c =
         c\<lparr>r_track := loc_track l + r_track c,
           r_intTick := int32 (r_intTick c + ticks (loc_frac l))\<rparr>"
  using assms
  by (simp add: fastPath_def toAbsolute_fields location_fields setTrack_def track_def)

lemma agree_paste:
  assumes "loc_rel l" "pasteMode c"
  shows "slowPath assertsOn ticks fromTicks l c = Inr (fastPath ticks l c)
         \<longleftrightarrow> loc_frac l = 0 \<and> ticks (r_tick c) = int32 (r_intTick c + ticks 0)"
  using assms by (cases c) (auto simp: slowPath_paste fastPath_eq)

lemma agree_nopaste:
  assumes "loc_rel l" "\<not> pasteMode c" "r_tickOffset c = 0" "loc_measure l = 0"
    "currentMeasure c = Some m"
  shows "slowPath assertsOn ticks fromTicks l c = Inr (fastPath ticks l c)
         \<longleftrightarrow> loc_frac l = 0
             \<and> int32 (ticks (r_tick c - measure_tick m) + ticks (measure_tick m))
                 = int32 (r_intTick c + ticks 0)"
  using assms by (cases c) (auto simp: slowPath_nopaste fastPath_eq)

lemma int32_small: "- 2147483648 \<le> x \<Longrightarrow> x < 2147483648 \<Longrightarrow> int32 x = x"
  by (simp add: int32_def)

text \<open>The example unit: 480 ticks per quarter note, 1920 per whole note.\<close>

lemma ticks_480_zero: "ticks_of 480 0 = 0"
  by (simp add: ticks_of_def floor_eq_iff)

lemma ticks_480_quarter: "ticks_of 480 (1 / 4) = 480"
  by (simp add: ticks_of_def floor_eq_iff)

lemma ticks_480_subtick: "ticks_of 480 (1 / 7680) = 0"
  by (simp add: ticks_of_def floor_eq_iff)

text \<open>
  C2, as amended. In paste mode, or outside paste mode with a current measure and a
  zero tick offset, \<open>setLocation(location())\<close> returns and leaves \<open>_tick\<close>, \<open>_track\<close>
  and \<open>_curMeasure\<close> as they were, and with them what \<open>tick()\<close>, \<open>track()\<close> and
  \<open>currentMeasure()\<close> report. (Outside paste mode \<open>location()\<close> reports
  \<open>_tick - measure tick\<close>, from which \<open>setLocation\<close> takes \<open>_tickOffset\<close> before it adds
  the measure tick again, so a tick offset that is not zero moves the tick.)
\<close>

theorem setLocation_location_noop:
  assumes "pasteMode c \<or> (r_tickOffset c = 0 \<and> currentMeasure c \<noteq> None)"
  shows "\<exists>c'. setLocation assertsOn ticks fromTicks (location False c) c = Inr c'
            \<and> r_tick c' = r_tick c \<and> r_track c' = r_track c
            \<and> r_curMeasure c' = r_curMeasure c
            \<and> tick c' = tick c \<and> track c' = track c \<and> currentMeasure c' = currentMeasure c"
proof (cases "pasteMode c")
  case True
  then show ?thesis
    by (simp add: setLocation_absolute location_fields Let_def setTrack_def setTick_def
        pasteMode_def tick_def track_def reduced_def currentMeasure_def)
next
  case False
  with assms obtain m where "r_tickOffset c = 0" "r_curMeasure c = Some m"
    by (auto simp: currentMeasure_def)
  with False show ?thesis
    by (simp add: setLocation_absolute location_fields Let_def setTrack_def setTick_def
        incTick_def pasteMode_def tick_def track_def reduced_def currentMeasure_def
        currentMeasureIndex_def rtick_def)
qed

text \<open>A cursor in the second measure, outside paste mode.\<close>

theorem setLocation_location_noop_witness:
  "\<exists>c'. setLocation True (ticks_of 480) (fromTicks_of 480)
          (location False
             \<lparr>r_tick = 3 / 4, r_intTick = 1440, r_track = 2, r_trackOffset = 0,
              r_tickOffset = 0, r_curMeasure = Some \<lparr>measure_tick = 1 / 2\<rparr>,
              r_curMeasureIdx = 1, r_pasteMode = False\<rparr>)
          \<lparr>r_tick = 3 / 4, r_intTick = 1440, r_track = 2, r_trackOffset = 0,
           r_tickOffset = 0, r_curMeasure = Some \<lparr>measure_tick = 1 / 2\<rparr>,
           r_curMeasureIdx = 1, r_pasteMode = False\<rparr> = Inr c'
        \<and> r_tick c' = 3 / 4 \<and> r_track c' = 2
        \<and> r_curMeasure c' = Some \<lparr>measure_tick = 1 / 2\<rparr>"
  using setLocation_location_noop [where assertsOn = True
      and ticks = "ticks_of 480" and fromTicks = "fromTicks_of 480"
      and c = "\<lparr>r_tick = 3 / 4, r_intTick = 1440, r_track = 2, r_trackOffset = 0,
                r_tickOffset = 0, r_curMeasure = Some \<lparr>measure_tick = 1 / 2\<rparr>,
                r_curMeasureIdx = 1, r_pasteMode = False\<rparr>"]
  by (auto simp add: currentMeasure_def)

text \<open>
  C2 as stated fails on a reader that is not in paste mode and has no current measure
  yet: \<open>location()\<close> is computed (\<open>rtick\<close> tests the pointer), but \<open>setLocation\<close>
  reads the tick of the null measure and returns no cursor.
\<close>

theorem setLocation_location_counterexample:
  "setLocation True (ticks_of 480) (fromTicks_of 480)
     (location False
        \<lparr>r_tick = 0, r_intTick = 0, r_track = 0, r_trackOffset = 0, r_tickOffset = 0,
         r_curMeasure = None, r_curMeasureIdx = 0, r_pasteMode = False\<rparr>)
     \<lparr>r_tick = 0, r_intTick = 0, r_track = 0, r_trackOffset = 0, r_tickOffset = 0,
      r_curMeasure = None, r_curMeasureIdx = 0, r_pasteMode = False\<rparr>
   = Inl NullMeasure"
  by (simp add: setLocation_absolute location_fields Let_def setTrack_def setTick_def
      pasteMode_def currentMeasure_def currentMeasureIndex_def)

text \<open>
  C3, as amended. For a relative location \<open>setLocation\<close> calls itself at most once:
  it either takes the fast path or runs once more on the location made absolute,
  which is not relative. The fast path leaves \<open>_tick\<close> as it is, adds the tick
  count of the location's fraction to \<open>_intTick\<close> (a 32-bit sum) and sets the track
  to the location's track plus the current one. It leaves the same cursor as the slow
  path exactly when the location's fraction is zero and \<open>_intTick\<close> is the tick
  count that the slow path computes: this is so in paste mode, and outside paste mode
  for a location in the current measure (measure offset zero), a cursor that has a
  current measure and a tick offset of zero. Whether \<open>Q_ASSERT\<close> is compiled in
  makes no difference there.
\<close>

theorem setLocation_relative_paths:
  assumes "loc_rel l"
  shows "setLocation_depth ticks fromTicks l c \<le> 1
     \<and> \<not> isRelative (toAbsolute l (location False c))
     \<and> setLocation assertsOn ticks fromTicks l c =
         (if fastPathTaken ticks fromTicks l c then Inr (fastPath ticks l c)
          else slowPath assertsOn ticks fromTicks l c)
     \<and> r_tick (fastPath ticks l c) = r_tick c
     \<and> r_intTick (fastPath ticks l c) = int32 (r_intTick c + ticks (loc_frac l))
     \<and> r_track (fastPath ticks l c) = loc_track l + r_track c
     \<and> (pasteMode c \<longrightarrow>
          (slowPath assertsOn ticks fromTicks l c = Inr (fastPath ticks l c)
           \<longleftrightarrow> loc_frac l = 0 \<and> ticks (r_tick c) = int32 (r_intTick c + ticks 0)))
     \<and> (\<not> pasteMode c \<and> r_tickOffset c = 0 \<and> loc_measure l = 0
          \<and> currentMeasure c = Some m \<longrightarrow>
          (slowPath assertsOn ticks fromTicks l c = Inr (fastPath ticks l c)
           \<longleftrightarrow> loc_frac l = 0
               \<and> int32 (ticks (r_tick c - measure_tick m) + ticks (measure_tick m))
                   = int32 (r_intTick c + ticks 0)))"
proof (intro conjI)
  show "setLocation_depth ticks fromTicks l c \<le> 1"
    by (rule setLocation_depth_le)
  show "\<not> isRelative (toAbsolute l (location False c))"
    by (simp add: isRelative_def toAbsolute_fields)
  show "setLocation assertsOn ticks fromTicks l c =
         (if fastPathTaken ticks fromTicks l c then Inr (fastPath ticks l c)
          else slowPath assertsOn ticks fromTicks l c)"
    by (rule setLocation_relative_cases [OF assms])
  show "r_tick (fastPath ticks l c) = r_tick c"
    by (simp add: fastPath_eq [OF assms])
  show "r_intTick (fastPath ticks l c) = int32 (r_intTick c + ticks (loc_frac l))"
    by (simp add: fastPath_eq [OF assms])
  show "r_track (fastPath ticks l c) = loc_track l + r_track c"
    by (simp add: fastPath_eq [OF assms])
  show "pasteMode c \<longrightarrow>
          (slowPath assertsOn ticks fromTicks l c = Inr (fastPath ticks l c)
           \<longleftrightarrow> loc_frac l = 0 \<and> ticks (r_tick c) = int32 (r_intTick c + ticks 0))"
    by (intro impI) (rule agree_paste [OF assms])
  show "\<not> pasteMode c \<and> r_tickOffset c = 0 \<and> loc_measure l = 0
          \<and> currentMeasure c = Some m \<longrightarrow>
          (slowPath assertsOn ticks fromTicks l c = Inr (fastPath ticks l c)
           \<longleftrightarrow> loc_frac l = 0
               \<and> int32 (ticks (r_tick c - measure_tick m) + ticks (measure_tick m))
                   = int32 (r_intTick c + ticks 0))"
    by (intro impI, elim conjE) (rule agree_nopaste [OF assms])
qed

text \<open>A relative location that changes the track only, in paste mode.\<close>

theorem setLocation_relative_paths_witness:
  "slowPath True (ticks_of 480) (fromTicks_of 480)
     \<lparr>loc_track = 1, loc_frac = 0, loc_measure = 0, loc_rel = True\<rparr>
     \<lparr>r_tick = 1 / 4, r_intTick = 480, r_track = 0, r_trackOffset = 4, r_tickOffset = 1 / 2,
      r_curMeasure = None, r_curMeasureIdx = 0, r_pasteMode = True\<rparr>
   = Inr (fastPath (ticks_of 480)
     \<lparr>loc_track = 1, loc_frac = 0, loc_measure = 0, loc_rel = True\<rparr>
     \<lparr>r_tick = 1 / 4, r_intTick = 480, r_track = 0, r_trackOffset = 4, r_tickOffset = 1 / 2,
      r_curMeasure = None, r_curMeasureIdx = 0, r_pasteMode = True\<rparr>)
   \<and> setLocation_depth (ticks_of 480) (fromTicks_of 480)
     \<lparr>loc_track = 1, loc_frac = 0, loc_measure = 0, loc_rel = True\<rparr>
     \<lparr>r_tick = 1 / 4, r_intTick = 480, r_track = 0, r_trackOffset = 4, r_tickOffset = 1 / 2,
      r_curMeasure = None, r_curMeasureIdx = 0, r_pasteMode = True\<rparr> \<le> 1"
  using setLocation_relative_paths [where assertsOn = True and m = "\<lparr>measure_tick = 0\<rparr>"
      and ticks = "ticks_of 480" and fromTicks = "fromTicks_of 480"
      and l = "\<lparr>loc_track = 1, loc_frac = 0, loc_measure = 0, loc_rel = True\<rparr>"
      and c = "\<lparr>r_tick = 1 / 4, r_intTick = 480, r_track = 0, r_trackOffset = 4,
                r_tickOffset = 1 / 2, r_curMeasure = None, r_curMeasureIdx = 0,
                r_pasteMode = True\<rparr>"]
  by (simp add: pasteMode_def ticks_480_zero ticks_480_quarter int32_small)

text \<open>
  C3 as stated fails for a relative location a quarter of a tick ahead, in paste mode
  with tick and mirror at 0: the fraction counts 0 ticks, so the fast path is taken
  and \<open>setLocation\<close> leaves the tick at 0, while the slow path would move the tick
  to 1/7680.
\<close>

theorem setLocation_fast_slow_counterexample:
  "fastPathTaken (ticks_of 480) (fromTicks_of 480)
     \<lparr>loc_track = 0, loc_frac = 1 / 7680, loc_measure = 0, loc_rel = True\<rparr>
     \<lparr>r_tick = 0, r_intTick = 0, r_track = 0, r_trackOffset = 0, r_tickOffset = 0,
      r_curMeasure = None, r_curMeasureIdx = 0, r_pasteMode = True\<rparr>
   \<and> setLocation True (ticks_of 480) (fromTicks_of 480)
     \<lparr>loc_track = 0, loc_frac = 1 / 7680, loc_measure = 0, loc_rel = True\<rparr>
     \<lparr>r_tick = 0, r_intTick = 0, r_track = 0, r_trackOffset = 0, r_tickOffset = 0,
      r_curMeasure = None, r_curMeasureIdx = 0, r_pasteMode = True\<rparr>
     = Inr \<lparr>r_tick = 0, r_intTick = 0, r_track = 0, r_trackOffset = 0, r_tickOffset = 0,
      r_curMeasure = None, r_curMeasureIdx = 0, r_pasteMode = True\<rparr>
   \<and> slowPath True (ticks_of 480) (fromTicks_of 480)
     \<lparr>loc_track = 0, loc_frac = 1 / 7680, loc_measure = 0, loc_rel = True\<rparr>
     \<lparr>r_tick = 0, r_intTick = 0, r_track = 0, r_trackOffset = 0, r_tickOffset = 0,
      r_curMeasure = None, r_curMeasureIdx = 0, r_pasteMode = True\<rparr>
     = Inr \<lparr>r_tick = 1 / 7680, r_intTick = 0, r_track = 0, r_trackOffset = 0, r_tickOffset = 0,
      r_curMeasure = None, r_curMeasureIdx = 0, r_pasteMode = True\<rparr>"
  by (simp add: setLocation_relative_cases fastPathTaken_def fromTicks_of_def ticks_480_subtick
      slowPath_paste fastPath_eq pasteMode_def int32_small)

section \<open>Properties of the connector pool\<close>

subsection \<open>Removing a chain\<close>

text \<open>
  On a chain \<open>removeConnector\<close> returns: from any of its fragments it reaches the start
  and then erases every fragment of the chain from a vector without repetitions.
\<close>

lemma linked_snoc2:
  "linked h (xs @ [x, c]) \<longleftrightarrow> linked h (xs @ [x]) \<and> ci_next (h x) = Some c \<and> ci_prev (h c) = Some x"
  by (induction h xs rule: linked.induct) auto

lemma chainStart_None: "ci_prev (h c) = None \<Longrightarrow> chainStart h c = Some c"
  by (subst chainStart.simps) simp

lemma chainStart_Some: "ci_prev (h c) = Some p \<Longrightarrow> chainStart h c = chainStart h p"
  by (subst chainStart.simps) simp

lemma chainStart_linked:
  "linked h (xs @ [c]) \<Longrightarrow> chainStart h c = chainStart h (hd (xs @ [c]))"
proof (induction xs arbitrary: c rule: rev_induct)
  case Nil
  then show ?case by simp
next
  case (snoc x xs)
  then have l: "linked h (xs @ [x])" and p: "ci_prev (h c) = Some x"
    by (simp_all add: linked_snoc2)
  have "chainStart h c = chainStart h x" using p by (rule chainStart_Some)
  also have "\<dots> = chainStart h (hd (xs @ [x]))" using l by (rule snoc.IH)
  finally show ?case by (cases xs) simp_all
qed

lemma linked_append: "linked h (xs @ ys) \<Longrightarrow> linked h xs"
  by (induction h xs rule: linked.induct) simp_all

lemma chainStart_chain:
  assumes "isChain h ch" "c \<in> set ch"
  shows "chainStart h c = Some (hd ch)"
proof -
  from assms(2) obtain xs ys where ch: "ch = xs @ c # ys" by (auto simp: in_set_conv_decomp)
  with assms(1) have "linked h ((xs @ [c]) @ ys)" by (simp add: isChain_def)
  then have "linked h (xs @ [c])" by (rule linked_append)
  then have "chainStart h c = chainStart h (hd (xs @ [c]))" by (rule chainStart_linked)
  moreover have "hd (xs @ [c]) = hd ch" using ch by (cases xs) simp_all
  moreover have "ci_prev (h (hd ch)) = None" using assms(1) by (simp add: isChain_def)
  ultimately show ?thesis by (simp add: chainStart_None)
qed

lemma eraseChain_linked:
  "linked h ch \<Longrightarrow> ch \<noteq> [] \<Longrightarrow> ci_next (h (last ch)) = None \<Longrightarrow>
   eraseChain h (Some (hd ch)) cs = Some (fold remove1 ch cs)"
proof (induction h ch arbitrary: cs rule: linked.induct)
  case (1 h)
  then show ?case by simp
next
  case (2 h x)
  then show ?case
    by (subst eraseChain.simps, simp, subst eraseChain.simps, simp)
next
  case (3 h x y r)
  then have "eraseChain h (Some (hd (y # r))) (remove1 x cs) = Some (fold remove1 (y # r) (remove1 x cs))"
    by simp
  with 3 show ?case
    by (subst eraseChain.simps) simp
qed

lemma fold_remove1_filter:
  "distinct cs \<Longrightarrow> fold remove1 ch cs = filter (\<lambda>x. x \<notin> set ch) cs"
proof (induction ch arbitrary: cs)
  case Nil
  then show ?case by simp
next
  case (Cons a ch)
  have "remove1 a cs = filter (\<lambda>x. x \<noteq> a) cs"
    using Cons.prems by (simp add: distinct_remove1_removeAll removeAll_filter_not_eq) metis
  moreover have "distinct (remove1 a cs)" using Cons.prems by simp
  ultimately show ?case using Cons.IH [of "remove1 a cs"]
    by (simp add: conj_commute)
qed

lemma removeConnector_chain:
  assumes "isChain h ch" "c \<in> set ch" "distinct cs"
  shows "removeConnector h c cs = Some (filter (\<lambda>x. x \<notin> set ch) cs)"
proof -
  have "chainStart h c = Some (hd ch)" using assms(1,2) by (rule chainStart_chain)
  moreover have "eraseChain h (Some (hd ch)) cs = Some (fold remove1 ch cs)"
    using assms(1) by (intro eraseChain_linked) (simp_all add: isChain_def)
  ultimately show ?thesis
    using assms(3) by (simp add: removeConnector_def fold_remove1_filter)
qed

lemma connectLoop_skip:
  "\<forall>x \<in> set pre. op_connect ops x c1 (heap s) = (False, heap s) \<Longrightarrow>
   connectLoop ops c1 (pre @ rest) s = connectLoop ops c1 rest s"
  by (induction pre) simp_all

lemma connectLoop_score:
  "connectLoop ops c1 xs s = Some s' \<Longrightarrow>
   score s' = score s \<or> (\<exists>c2 \<in> set xs. score s' = score s @ [(c2, p_pasteMode s)])"
proof (induction xs arbitrary: s)
  case Nil
  then show ?case by simp
next
  case (Cons c2 xs)
  obtain b h where c: "op_connect ops c2 c1 (heap s) = (b, h)" by (cases "op_connect ops c2 c1 (heap s)")
  show ?case
  proof (cases b)
    case True
    with c Cons.prems show ?thesis
      by (auto simp: Let_def split: if_splits option.splits)
  next
    case False
    with c Cons.prems have "connectLoop ops c1 xs (s\<lparr>heap := h\<rparr>) = Some s'" by simp
    from Cons.IH [OF this] show ?thesis by auto
  qed
qed

text \<open>
  C4. \<open>addConnectorInfo\<close> puts the new fragment \<open>c\<close> at the back of \<open>_connectors\<close>, as
  an entry of its own, and calls \<open>update\<close> on it. It then asks the fragments in the
  order of the vector, which is the order in which they were added, to connect to
  \<open>c\<close>. If none does, nothing else changes. If \<open>c2\<close> is the first that does (the ones
  before it refuse and change nothing), the fragments after \<open>c2\<close> are not asked: the
  result does not depend on them. When the chain of \<open>c2\<close> is not finished the pool
  keeps all fragments; when it is finished \<open>addToScore\<close> is called once, on \<open>c2\<close> with
  the reader's paste mode, and every fragment of the chain of \<open>c2\<close> leaves
  \<open>_connectors\<close> (the chain being a list of fragments linked by \<open>next\<close> and \<open>prev\<close>
  from its start to its end). In every case at most one call of \<open>addToScore\<close> is
  added.
\<close>

theorem addConnectorInfo_first_match:
  "((\<forall>x \<in> set (connectors s @ [c]).
        op_connect ops x c (op_update ops c (heap s)) = (False, op_update ops c (heap s)))
      \<longrightarrow> addConnectorInfo ops c s =
            Some (s\<lparr>connectors := connectors s @ [c], heap := op_update ops c (heap s)\<rparr>))
   \<and> (connectors s @ [c] = pre @ c2 # post
       \<and> (\<forall>x \<in> set pre.
             op_connect ops x c (op_update ops c (heap s)) = (False, op_update ops c (heap s)))
       \<and> op_connect ops c2 c (op_update ops c (heap s)) = (True, h1)
      \<longrightarrow> (\<not> op_finished ops h1 c2
             \<longrightarrow> addConnectorInfo ops c s =
                   Some (s\<lparr>connectors := connectors s @ [c], heap := h1\<rparr>))
          \<and> (op_finished ops h1 c2
              \<and> isChain (op_addToScore ops c2 (p_pasteMode s) h1) ch \<and> c2 \<in> set ch
              \<and> distinct (connectors s @ [c])
             \<longrightarrow> addConnectorInfo ops c s =
                   Some (s\<lparr>connectors := filter (\<lambda>x. x \<notin> set ch) (connectors s @ [c]),
                           heap := op_addToScore ops c2 (p_pasteMode s) h1,
                           score := score s @ [(c2, p_pasteMode s)]\<rparr>)))
   \<and> (addConnectorInfo ops c s = Some s'
      \<longrightarrow> score s' = score s
          \<or> (\<exists>c2 \<in> set (connectors s @ [c]). score s' = score s @ [(c2, p_pasteMode s)]))"
proof -
  let ?cs = "connectors s @ [c]"
  let ?h0 = "op_update ops c (heap s)"
  let ?s1 = "s\<lparr>connectors := ?cs, heap := ?h0\<rparr>"
  have start: "addConnectorInfo ops c s = connectLoop ops c ?cs ?s1"
    by (simp add: addConnectorInfo_def Let_def)
  have none: "addConnectorInfo ops c s = Some ?s1"
    if "\<forall>x \<in> set ?cs. op_connect ops x c ?h0 = (False, ?h0)"
  proof -
    from that have "\<forall>x \<in> set ?cs. op_connect ops x c (heap ?s1) = (False, heap ?s1)" by simp
    from connectLoop_skip [OF this, of "[]"] show ?thesis by (simp add: start)
  qed
  have first: "addConnectorInfo ops c s = connectLoop ops c (c2 # post) ?s1"
    if "?cs = pre @ c2 # post" "\<forall>x \<in> set pre. op_connect ops x c ?h0 = (False, ?h0)"
  proof -
    from that(2) have "\<forall>x \<in> set pre. op_connect ops x c (heap ?s1) = (False, heap ?s1)" by simp
    from connectLoop_skip [OF this, of "c2 # post"] that(1) show ?thesis by (simp add: start)
  qed
  have unfinished: "addConnectorInfo ops c s = Some (s\<lparr>connectors := ?cs, heap := h1\<rparr>)"
    if "?cs = pre @ c2 # post" "\<forall>x \<in> set pre. op_connect ops x c ?h0 = (False, ?h0)"
      "op_connect ops c2 c ?h0 = (True, h1)" "\<not> op_finished ops h1 c2"
    using that by (simp add: first)
  have finished: "addConnectorInfo ops c s =
        Some (s\<lparr>connectors := filter (\<lambda>x. x \<notin> set ch) ?cs,
                heap := op_addToScore ops c2 (p_pasteMode s) h1,
                score := score s @ [(c2, p_pasteMode s)]\<rparr>)"
    if "?cs = pre @ c2 # post" "\<forall>x \<in> set pre. op_connect ops x c ?h0 = (False, ?h0)"
      "op_connect ops c2 c ?h0 = (True, h1)" "op_finished ops h1 c2"
      "isChain (op_addToScore ops c2 (p_pasteMode s) h1) ch" "c2 \<in> set ch" "distinct ?cs"
  proof -
    have "removeConnector (op_addToScore ops c2 (p_pasteMode s) h1) c2 ?cs
          = Some (filter (\<lambda>x. x \<notin> set ch) ?cs)"
      using that(5,6,7) by (rule removeConnector_chain)
    with that(3,4) show ?thesis
      by (simp add: first [OF that(1,2)] Let_def)
  qed
  have once: "score s' = score s
        \<or> (\<exists>c2 \<in> set ?cs. score s' = score s @ [(c2, p_pasteMode s)])"
    if "addConnectorInfo ops c s = Some s'"
    using connectLoop_score [of ops c ?cs ?s1 s'] that by (simp add: start)
  from none unfinished finished once show ?thesis by blast
qed

text \<open>
  Fragments 2, 3 and 5 wait; 4 arrives and 3 connects to it, which finishes the chain
  of 3 and 4: both leave the pool, and the chain is committed in paste mode.
\<close>

theorem addConnectorInfo_first_match_witness:
  "addConnectorInfo
     \<lparr>op_update = (\<lambda>c h. h),
      op_connect = (\<lambda>c2 c1 h. if c2 = 3 \<and> c1 = 4 then (True, forceConnect 3 4 h) else (False, h)),
      op_finished = (\<lambda>h c. True),
      op_addToScore = (\<lambda>c p h. h),
      op_start = (\<lambda>h c. c)\<rparr>
     4
     \<lparr>connectors = [2, 3, 5], pendingConnectors = [],
      heap = (\<lambda>r. \<lparr>ci_prev = None, ci_next = None, ci_connector = None :: unit option\<rparr>),
      score = [], p_pasteMode = True\<rparr>
   = Some \<lparr>connectors = [2, 5], pendingConnectors = [],
      heap = forceConnect 3 4 (\<lambda>r. \<lparr>ci_prev = None, ci_next = None, ci_connector = None\<rparr>),
      score = [(3, True)], p_pasteMode = True\<rparr>"
  using addConnectorInfo_first_match
    [where ops = "\<lparr>op_update = (\<lambda>c h. h),
      op_connect = (\<lambda>c2 c1 h. if c2 = 3 \<and> c1 = 4 then (True, forceConnect 3 4 h) else (False, h)),
      op_finished = (\<lambda>h c. True),
      op_addToScore = (\<lambda>c p h. h),
      op_start = (\<lambda>h c. c)\<rparr>"
     and c = 4
     and s = "\<lparr>connectors = [2, 3, 5], pendingConnectors = [],
      heap = (\<lambda>r. \<lparr>ci_prev = None, ci_next = None, ci_connector = None :: unit option\<rparr>),
      score = [], p_pasteMode = True\<rparr>"
     and pre = "[2]" and ?c2.0 = 3 and post = "[5, 4]"
     and ?h1.0 = "forceConnect 3 4 (\<lambda>r. \<lparr>ci_prev = None, ci_next = None, ci_connector = None\<rparr>)"
     and ch = "[3, 4]"
     and s' = "\<lparr>connectors = [2, 5], pendingConnectors = [],
      heap = forceConnect 3 4 (\<lambda>r. \<lparr>ci_prev = None, ci_next = None, ci_connector = None\<rparr>),
      score = [(3, True)], p_pasteMode = True\<rparr>"]
  by (simp add: isChain_def forceConnect_def)

subsection \<open>Repairing broken connectors\<close>

lemma forceConnect_next [simp]:
  "ci_next (forceConnect a b h x) = (if x = a then Some b else ci_next (h x))"
  by (simp add: forceConnect_def Let_def)

lemma forceConnect_prev [simp]:
  "ci_prev (forceConnect a b h x) = (if x = b then Some a else ci_prev (h x))"
  by (simp add: forceConnect_def Let_def)

lemma brokenPairs_length:
  "length (brokenPairs cd cs) = length cs * (length cs - 1) div 2"
proof -
  have "length (brokenPairs cd cs) = sum_list (map (\<lambda>i. i) [1..<length cs])"
    by (simp add: brokenPairs_def length_concat comp_def)
  also have "\<dots> = \<Sum>{1..<length cs}"
    using interv_sum_list_conv_sum_set_nat [of "\<lambda>i. i" 1 "length cs"] by simp
  also have "\<dots> = length cs * (length cs - 1) div 2"
    by (simp add: Sum_Ico_nat)
  finally show ?thesis .
qed

lemma brokenPairs_rows:
  "brokenPairs cd cs =
     concat (map (\<lambda>i. map (\<lambda>j. if cd (cs ! i) (cs ! j) \<ge> 0
                                    then (cd (cs ! i) (cs ! j), cs ! i, cs ! j)
                                    else (- cd (cs ! i) (cs ! j), cs ! j, cs ! i)) [0..<i])
                 [1..<length cs])"
  by (simp add: brokenPairs_def Let_def)

lemma brokenPairs_covers:
  assumes "j < i" "i < length cs"
  shows "(if cd (cs ! i) (cs ! j) \<ge> 0 then (cd (cs ! i) (cs ! j), cs ! i, cs ! j)
          else (- cd (cs ! i) (cs ! j), cs ! j, cs ! i)) \<in> set (brokenPairs cd cs)"
proof -
  let ?cand = "\<lambda>i j. if cd (cs ! i) (cs ! j) \<ge> 0 then (cd (cs ! i) (cs ! j), cs ! i, cs ! j)
                      else (- cd (cs ! i) (cs ! j), cs ! j, cs ! i)"
  let ?row = "\<lambda>i. map (?cand i) [0..<i]"
  from assms(1) have "j \<in> set [0..<i]" by simp
  then have "?cand i j \<in> ?cand i ` set [0..<i]" by (rule imageI)
  then have in_row: "?cand i j \<in> set (?row i)" by (simp only: set_map)
  from assms have "i \<in> set [1..<length cs]" by simp
  then have "?row i \<in> ?row ` set [1..<length cs]" by (rule imageI)
  then have row: "?row i \<in> set (map ?row [1..<length cs])" by (simp only: set_map)
  from row in_row show ?thesis
    unfolding brokenPairs_rows set_concat by (rule UN_I)
qed

lemma brokenPairs_only:
  assumes "(d, a, b) \<in> set (brokenPairs cd cs)"
  shows "\<exists>i j. j < i \<and> i < length cs
           \<and> (a = cs ! i \<and> b = cs ! j \<and> d = cd a b \<and> 0 \<le> d
               \<or> a = cs ! j \<and> b = cs ! i \<and> d = - cd b a \<and> cd b a < 0)"
proof -
  from assms obtain i j where ij: "j < i" "i < length cs"
    and e: "(d, a, b) = (if cd (cs ! i) (cs ! j) \<ge> 0 then (cd (cs ! i) (cs ! j), cs ! i, cs ! j)
                        else (- cd (cs ! i) (cs ! j), cs ! j, cs ! i))"
    unfolding brokenPairs_rows by auto
  show ?thesis
  proof (cases "cd (cs ! i) (cs ! j) \<ge> 0")
    case True
    with e have "a = cs ! i \<and> b = cs ! j \<and> d = cd a b \<and> 0 \<le> d" by simp
    with ij show ?thesis by blast
  next
    case False
    with e have "a = cs ! j \<and> b = cs ! i \<and> d = - cd b a \<and> cd b a < 0" by simp
    with ij show ?thesis by blast
  qed
qed

lemma joinPairs_append: "joinPairs (xs @ ys) h = joinPairs ys (joinPairs xs h)"
  by (induction xs h rule: joinPairs.induct) simp_all

lemma joinPairs_keeps_next:
  "ci_next (h x) = Some y \<Longrightarrow> ci_next (joinPairs ps h x) = Some y"
proof (induction ps h rule: joinPairs.induct)
  case (1 h)
  then show ?case by simp
next
  case (2 d a b ps h)
  show ?case
  proof (cases "d = INT_MAX \<or> ci_next (h a) \<noteq> None \<or> ci_prev (h b) \<noteq> None")
    case True
    with 2 show ?thesis by auto
  next
    case False
    with "2.prems" have "x \<noteq> a" by auto
    with "2.prems" have "ci_next (forceConnect a b h x) = Some y" by simp
    with False "2.IH"(3) show ?thesis by simp
  qed
qed

lemma joinPairs_keeps_prev:
  "ci_prev (h x) = Some y \<Longrightarrow> ci_prev (joinPairs ps h x) = Some y"
proof (induction ps h rule: joinPairs.induct)
  case (1 h)
  then show ?case by simp
next
  case (2 d a b ps h)
  show ?case
  proof (cases "d = INT_MAX \<or> ci_next (h a) \<noteq> None \<or> ci_prev (h b) \<noteq> None")
    case True
    with 2 show ?thesis by auto
  next
    case False
    with "2.prems" have "x \<noteq> b" by auto
    with "2.prems" have "ci_prev (forceConnect a b h x) = Some y" by simp
    with False "2.IH"(3) show ?thesis by simp
  qed
qed

lemma joinPairs_only_candidates:
  "ci_next (joinPairs ps h x) = Some y \<Longrightarrow>
   ci_next (h x) = Some y \<or> (\<exists>d. (d, x, y) \<in> set ps \<and> d \<noteq> INT_MAX)"
proof (induction ps h rule: joinPairs.induct)
  case (1 h)
  then show ?case by simp
next
  case (2 d a b ps h)
  show ?case
  proof (cases "d = INT_MAX \<or> ci_next (h a) \<noteq> None \<or> ci_prev (h b) \<noteq> None")
    case True
    then have "joinPairs ((d, a, b) # ps) h = joinPairs ps h" by auto
    with "2.prems" have "ci_next (joinPairs ps h x) = Some y" by simp
    with True "2.IH"(1,2) have "ci_next (h x) = Some y \<or> (\<exists>d. (d, x, y) \<in> set ps \<and> d \<noteq> INT_MAX)"
      by blast
    then show ?thesis by auto
  next
    case False
    with "2.prems" have "ci_next (joinPairs ps (forceConnect a b h) x) = Some y" by simp
    with False "2.IH"(3)
    have "ci_next (forceConnect a b h x) = Some y \<or> (\<exists>d. (d, x, y) \<in> set ps \<and> d \<noteq> INT_MAX)"
      by blast
    then show ?thesis
    proof
      assume n: "ci_next (forceConnect a b h x) = Some y"
      show ?thesis
      proof (cases "x = a")
        case True
        with n have "y = b" by simp
        with True False show ?thesis by auto
      next
        case False
        with n show ?thesis by simp
      qed
    next
      assume "\<exists>d. (d, x, y) \<in> set ps \<and> d \<noteq> INT_MAX"
      then show ?thesis by auto
    qed
  qed
qed

lemma forceConnect_consistent:
  assumes "linksConsistent h" "ci_next (h a) = None" "ci_prev (h b) = None"
  shows "linksConsistent (forceConnect a b h)"
  unfolding linksConsistent_def
proof (intro allI)
  fix x y
  from assms(1) have c: "ci_next (h x) = Some y \<longleftrightarrow> ci_prev (h y) = Some x"
    and ca: "ci_next (h a) = Some y \<longleftrightarrow> ci_prev (h y) = Some a"
    and cb: "ci_next (h x) = Some b \<longleftrightarrow> ci_prev (h b) = Some x"
    by (simp_all add: linksConsistent_def)
  from c ca cb assms(2,3)
  show "ci_next (forceConnect a b h x) = Some y \<longleftrightarrow> ci_prev (forceConnect a b h y) = Some x"
    by auto
qed

lemma joinPairs_consistent:
  "linksConsistent h \<Longrightarrow> linksConsistent (joinPairs ps h)"
  by (induction ps h rule: joinPairs.induct) (simp_all add: forceConnect_consistent)

lemma joinPairs_head:
  assumes "d \<noteq> INT_MAX" "ci_next (h a) = None" "ci_prev (h b) = None"
  shows "ci_next (joinPairs ((d, a, b) # ps) h a) = Some b
       \<and> ci_prev (joinPairs ((d, a, b) # ps) h b) = Some a"
  using assms by (simp add: joinPairs_keeps_next joinPairs_keeps_prev)

lemma sorted_arrangement_unique:
  assumes "distanceSorted xs sp" "sorted (map fst xs)" "distinct (map fst xs)"
  shows "sp = xs"
proof -
  from assms(1) have m: "mset sp = mset xs" and s: "sorted (map fst sp)"
    by (simp_all add: distanceSorted_def)
  from m have mm: "mset (map fst sp) = mset (map fst xs)" by simp
  then have d: "distinct (map fst sp)" using assms(3) by (metis mset_eq_imp_distinct_iff)
  from mm have "set (map fst sp) = set (map fst xs)" by (rule mset_eq_setD)
  with s d assms(2,3) have keys: "map fst sp = map fst xs"
    by (intro sorted_distinct_set_unique)
  from m have "set sp = set xs" by (rule mset_eq_setD)
  moreover from assms(3) have "inj_on fst (set xs)" by (simp add: distinct_map)
  ultimately have "inj_on fst (set sp \<union> set xs)" by simp
  with keys show ?thesis by (simp add: inj_on_map_eq_map)
qed

lemma brokenPairs_three:
  "brokenPairs cd [x, y, z] =
     [if cd y x \<ge> 0 then (cd y x, y, x) else (- cd y x, x, y),
      if cd z x \<ge> 0 then (cd z x, z, x) else (- cd z x, x, z),
      if cd z y \<ge> 0 then (cd z y, z, y) else (- cd z y, y, z)]"
proof -
  have "[1..<3] = [1, 2::nat]" "[0..<2] = [0, 1::nat]" "[0..<1] = [0::nat]"
    by (simp_all add: upt_conv_Cons)
  then show ?thesis
    by (simp add: brokenPairs_rows)
qed

lemma three_arrangements:
  assumes "distinct cs" "set cs = {a, b, c}" "distinct [a, b, c]"
  shows "cs \<in> {[a, b, c], [a, c, b], [b, a, c], [b, c, a], [c, a, b], [c, b, a]}"
proof -
  from assms have "card (set cs) = 3" by simp
  with assms(1) have "length cs = 3" by (simp add: distinct_card)
  then obtain x y z where cs: "cs = [x, y, z]"
    by (auto simp: numeral_3_eq_3 length_Suc_conv)
  from assms(2) have x: "x = a \<or> x = b \<or> x = c" and y: "y = a \<or> y = b \<or> y = c"
    and z: "z = a \<or> z = b \<or> z = c"
    and a: "a = x \<or> a = y \<or> a = z" and b: "b = x \<or> b = y \<or> b = z"
    and c: "c = x \<or> c = y \<or> c = z"
    unfolding cs by auto
  from assms(1) have d: "x \<noteq> y" "x \<noteq> z" "y \<noteq> z" unfolding cs by auto
  from x y z a b c d show ?thesis unfolding cs by auto
qed

text \<open>
  Three chains: \<open>a\<close> can continue into \<open>b\<close> and into \<open>c\<close>, \<open>b\<close> is the nearer
  one, and \<open>b\<close> and \<open>c\<close> cannot continue into each other.
\<close>

lemma three_chains:
  assumes cs: "distinct cs" "set cs = {a, b, c}" "distinct [a, b, c]"
    and ab: "cd a b = dab" "cd b a = - dab"
    and ac: "cd a c = dac" "cd c a = - dac"
    and bc: "cd b c = INT_MAX" "cd c b = INT_MAX"
    and order: "0 < dab" "dab < dac" "dac < INT_MAX"
    and free: "\<forall>x \<in> {a, b, c}. ci_next (h x) = None \<and> ci_prev (h x) = None"
    and sp: "distanceSorted (brokenPairs cd cs) sp"
  shows "take 2 sp = [(dab, a, b), (dac, a, c)] \<and> joinPairs sp h = forceConnect a b h"
proof -
  have imax: "0 \<le> INT_MAX" by (simp add: INT_MAX_def)
  from cs have "cs \<in> {[a, b, c], [a, c, b], [b, a, c], [b, c, a], [c, a, b], [c, b, a]}"
    by (rule three_arrangements)
  with ab ac bc order imax
  have "\<exists>u v. mset (brokenPairs cd cs) = mset [(dab, a, b), (dac, a, c), (INT_MAX, u, v)]"
    by (auto simp: brokenPairs_three)
  then obtain u v
    where m: "mset (brokenPairs cd cs) = mset [(dab, a, b), (dac, a, c), (INT_MAX, u, v)]"
    by blast
  from sp m have "distanceSorted [(dab, a, b), (dac, a, c), (INT_MAX, u, v)] sp"
    by (simp add: distanceSorted_def)
  moreover from order have "sorted (map fst [(dab, a, b), (dac, a, c), (INT_MAX, u, v)])"
    and "distinct (map fst [(dab, a, b), (dac, a, c), (INT_MAX, u, v)])" by auto
  ultimately have sp_eq: "sp = [(dab, a, b), (dac, a, c), (INT_MAX, u, v)]"
    by (rule sorted_arrangement_unique)
  from order free have "joinPairs sp h = forceConnect a b h"
    unfolding sp_eq by simp
  with sp_eq show ?thesis by simp
qed

text \<open>
  C5. \<open>reconnectBrokenConnectors\<close> collects one candidate for every pair \<open>j < i\<close> of
  fragments of \<open>_connectors\<close>, directed by the sign of the distance, so there are
  \<open>n (n - 1) / 2\<close> of them; it sorts them by ascending distance and runs the joining
  loop over the sorted list. For the joining loop over any arrangement \<open>sp\<close> of
  candidates: a link that it makes comes from a candidate whose distance is not
  \<open>INT_MAX\<close>; a \<open>next\<close> or \<open>prev\<close> that is set is never replaced, links that agree
  stay in agreement (so no fragment becomes the successor of two); and a candidate
  whose distance is not \<open>INT_MAX\<close> is joined when, after the candidates before it, its
  from-fragment has no \<open>next\<close> and its to-fragment no \<open>prev\<close>. For three unconnected
  chains \<open>A\<close>, \<open>B\<close>, \<open>C\<close>, in any order in \<open>_connectors\<close>, where \<open>A\<close> continues into \<open>B\<close>
  at distance \<open>dAB\<close> and into \<open>C\<close> at the larger distance \<open>dAC\<close> and \<open>B\<close>, \<open>C\<close> do not
  continue into each other: every sorting puts (\<open>A\<close>, \<open>B\<close>) first and (\<open>A\<close>, \<open>C\<close>)
  second, \<open>A\<close> is joined to \<open>B\<close>, and \<open>C\<close> stays alone.
\<close>

theorem reconnectBrokenConnectors_greedy:
  "length (brokenPairs cd cs) = length cs * (length cs - 1) div 2
   \<and> (\<forall>i < length cs. \<forall>j < i.
         (if cd (cs ! i) (cs ! j) \<ge> 0 then (cd (cs ! i) (cs ! j), cs ! i, cs ! j)
          else (- cd (cs ! i) (cs ! j), cs ! j, cs ! i)) \<in> set (brokenPairs cd cs))
   \<and> distanceSorted (brokenPairs cd cs) (sort_key fst (brokenPairs cd cs))
   \<and> (connectors s \<noteq> [] \<longrightarrow>
        reconnectBrokenConnectors ops cd s =
          commitChains ops
            (remdups (map (op_start ops
                             (joinPairs (sort_key fst (brokenPairs cd (connectors s))) (heap s)))
                        (filter (op_finished ops
                             (joinPairs (sort_key fst (brokenPairs cd (connectors s))) (heap s)))
                           (connectors s))))
            (s\<lparr>heap := joinPairs (sort_key fst (brokenPairs cd (connectors s))) (heap s)\<rparr>))
   \<and> (\<forall>x y. ci_next (joinPairs sp h x) = Some y \<longrightarrow>
          ci_next (h x) = Some y \<or> (\<exists>d. (d, x, y) \<in> set sp \<and> d \<noteq> INT_MAX))
   \<and> (\<forall>x y. ci_next (h x) = Some y \<longrightarrow> ci_next (joinPairs sp h x) = Some y)
   \<and> (\<forall>x y. ci_prev (h x) = Some y \<longrightarrow> ci_prev (joinPairs sp h x) = Some y)
   \<and> (linksConsistent h \<longrightarrow> linksConsistent (joinPairs sp h))
   \<and> (sp = pre @ (d, a, b) # post \<and> d \<noteq> INT_MAX
        \<and> ci_next (joinPairs pre h a) = None \<and> ci_prev (joinPairs pre h b) = None
       \<longrightarrow> ci_next (joinPairs sp h a) = Some b \<and> ci_prev (joinPairs sp h b) = Some a)
   \<and> (distinct cs \<and> set cs = {A, B, C} \<and> distinct [A, B, C]
        \<and> cd A B = dAB \<and> cd B A = - dAB \<and> cd A C = dAC \<and> cd C A = - dAC
        \<and> cd B C = INT_MAX \<and> cd C B = INT_MAX
        \<and> 0 < dAB \<and> dAB < dAC \<and> dAC < INT_MAX
        \<and> (\<forall>x \<in> {A, B, C}. ci_next (h x) = None \<and> ci_prev (h x) = None)
        \<and> distanceSorted (brokenPairs cd cs) sp
       \<longrightarrow> take 2 sp = [(dAB, A, B), (dAC, A, C)]
           \<and> ci_next (joinPairs sp h A) = Some B \<and> ci_prev (joinPairs sp h B) = Some A
           \<and> ci_prev (joinPairs sp h A) = None \<and> ci_next (joinPairs sp h B) = None
           \<and> ci_next (joinPairs sp h C) = None \<and> ci_prev (joinPairs sp h C) = None)"
proof -
  have candidates: "\<forall>i < length cs. \<forall>j < i.
         (if cd (cs ! i) (cs ! j) \<ge> 0 then (cd (cs ! i) (cs ! j), cs ! i, cs ! j)
          else (- cd (cs ! i) (cs ! j), cs ! j, cs ! i)) \<in> set (brokenPairs cd cs)"
    using brokenPairs_covers by blast
  have sorted: "distanceSorted (brokenPairs cd cs) (sort_key fst (brokenPairs cd cs))"
    by (simp add: distanceSorted_def)
  have unfold: "reconnectBrokenConnectors ops cd s =
          commitChains ops
            (remdups (map (op_start ops
                             (joinPairs (sort_key fst (brokenPairs cd (connectors s))) (heap s)))
                        (filter (op_finished ops
                             (joinPairs (sort_key fst (brokenPairs cd (connectors s))) (heap s)))
                           (connectors s))))
            (s\<lparr>heap := joinPairs (sort_key fst (brokenPairs cd (connectors s))) (heap s)\<rparr>)"
    if "connectors s \<noteq> []"
    using that by (simp add: reconnectBrokenConnectors_def Let_def)
  have only: "\<forall>x y. ci_next (joinPairs sp h x) = Some y \<longrightarrow>
          ci_next (h x) = Some y \<or> (\<exists>d. (d, x, y) \<in> set sp \<and> d \<noteq> INT_MAX)"
    using joinPairs_only_candidates by blast
  have keeps: "\<forall>x y. ci_next (h x) = Some y \<longrightarrow> ci_next (joinPairs sp h x) = Some y"
    "\<forall>x y. ci_prev (h x) = Some y \<longrightarrow> ci_prev (joinPairs sp h x) = Some y"
    using joinPairs_keeps_next joinPairs_keeps_prev by blast+
  have greedy: "ci_next (joinPairs sp h a) = Some b \<and> ci_prev (joinPairs sp h b) = Some a"
    if "sp = pre @ (d, a, b) # post" "d \<noteq> INT_MAX"
      "ci_next (joinPairs pre h a) = None" "ci_prev (joinPairs pre h b) = None"
    using joinPairs_head [OF that(2,3,4), of post] by (simp add: that(1) joinPairs_append)
  have example: "take 2 sp = [(dAB, A, B), (dAC, A, C)]
           \<and> ci_next (joinPairs sp h A) = Some B \<and> ci_prev (joinPairs sp h B) = Some A
           \<and> ci_prev (joinPairs sp h A) = None \<and> ci_next (joinPairs sp h B) = None
           \<and> ci_next (joinPairs sp h C) = None \<and> ci_prev (joinPairs sp h C) = None"
    if "distinct cs" "set cs = {A, B, C}" "distinct [A, B, C]"
      "cd A B = dAB" "cd B A = - dAB" "cd A C = dAC" "cd C A = - dAC"
      "cd B C = INT_MAX" "cd C B = INT_MAX" "0 < dAB" "dAB < dAC" "dAC < INT_MAX"
      "\<forall>x \<in> {A, B, C}. ci_next (h x) = None \<and> ci_prev (h x) = None"
      "distanceSorted (brokenPairs cd cs) sp"
  proof -
    from three_chains [OF that]
    have t: "take 2 sp = [(dAB, A, B), (dAC, A, C)]" and j: "joinPairs sp h = forceConnect A B h"
      by simp_all
    from that(13) have "ci_next (h A) = None" "ci_prev (h A) = None" "ci_next (h B) = None"
      "ci_prev (h B) = None" "ci_next (h C) = None" "ci_prev (h C) = None" by simp_all
    with that(3) t show ?thesis unfolding j by simp
  qed
  show ?thesis
  proof (intro conjI)
    show "length (brokenPairs cd cs) = length cs * (length cs - 1) div 2"
      by (rule brokenPairs_length)
    show "\<forall>i < length cs. \<forall>j < i.
         (if cd (cs ! i) (cs ! j) \<ge> 0 then (cd (cs ! i) (cs ! j), cs ! i, cs ! j)
          else (- cd (cs ! i) (cs ! j), cs ! j, cs ! i)) \<in> set (brokenPairs cd cs)"
      by (rule candidates)
    show "distanceSorted (brokenPairs cd cs) (sort_key fst (brokenPairs cd cs))"
      by (rule sorted)
    show "connectors s \<noteq> [] \<longrightarrow>
        reconnectBrokenConnectors ops cd s =
          commitChains ops
            (remdups (map (op_start ops
                             (joinPairs (sort_key fst (brokenPairs cd (connectors s))) (heap s)))
                        (filter (op_finished ops
                             (joinPairs (sort_key fst (brokenPairs cd (connectors s))) (heap s)))
                           (connectors s))))
            (s\<lparr>heap := joinPairs (sort_key fst (brokenPairs cd (connectors s))) (heap s)\<rparr>)"
      using unfold by (rule impI)
    show "\<forall>x y. ci_next (joinPairs sp h x) = Some y \<longrightarrow>
          ci_next (h x) = Some y \<or> (\<exists>d. (d, x, y) \<in> set sp \<and> d \<noteq> INT_MAX)"
      by (rule only)
    show "\<forall>x y. ci_next (h x) = Some y \<longrightarrow> ci_next (joinPairs sp h x) = Some y"
      by (rule keeps(1))
    show "\<forall>x y. ci_prev (h x) = Some y \<longrightarrow> ci_prev (joinPairs sp h x) = Some y"
      by (rule keeps(2))
    show "linksConsistent h \<longrightarrow> linksConsistent (joinPairs sp h)"
      using joinPairs_consistent by (rule impI)
    show "sp = pre @ (d, a, b) # post \<and> d \<noteq> INT_MAX
        \<and> ci_next (joinPairs pre h a) = None \<and> ci_prev (joinPairs pre h b) = None
       \<longrightarrow> ci_next (joinPairs sp h a) = Some b \<and> ci_prev (joinPairs sp h b) = Some a"
    proof (intro impI, elim conjE)
      assume "sp = pre @ (d, a, b) # post" "d \<noteq> INT_MAX"
        "ci_next (joinPairs pre h a) = None" "ci_prev (joinPairs pre h b) = None"
      then show "ci_next (joinPairs sp h a) = Some b \<and> ci_prev (joinPairs sp h b) = Some a"
        by (rule greedy)
    qed
    show "distinct cs \<and> set cs = {A, B, C} \<and> distinct [A, B, C]
        \<and> cd A B = dAB \<and> cd B A = - dAB \<and> cd A C = dAC \<and> cd C A = - dAC
        \<and> cd B C = INT_MAX \<and> cd C B = INT_MAX
        \<and> 0 < dAB \<and> dAB < dAC \<and> dAC < INT_MAX
        \<and> (\<forall>x \<in> {A, B, C}. ci_next (h x) = None \<and> ci_prev (h x) = None)
        \<and> distanceSorted (brokenPairs cd cs) sp
       \<longrightarrow> take 2 sp = [(dAB, A, B), (dAC, A, C)]
           \<and> ci_next (joinPairs sp h A) = Some B \<and> ci_prev (joinPairs sp h B) = Some A
           \<and> ci_prev (joinPairs sp h A) = None \<and> ci_next (joinPairs sp h B) = None
           \<and> ci_next (joinPairs sp h C) = None \<and> ci_prev (joinPairs sp h C) = None"
    proof (intro impI, elim conjE)
      assume "distinct cs" "set cs = {A, B, C}" "distinct [A, B, C]"
        "cd A B = dAB" "cd B A = - dAB" "cd A C = dAC" "cd C A = - dAC"
        "cd B C = INT_MAX" "cd C B = INT_MAX" "0 < dAB" "dAB < dAC" "dAC < INT_MAX"
        "\<forall>x \<in> {A, B, C}. ci_next (h x) = None \<and> ci_prev (h x) = None"
        "distanceSorted (brokenPairs cd cs) sp"
      then show "take 2 sp = [(dAB, A, B), (dAC, A, C)]
           \<and> ci_next (joinPairs sp h A) = Some B \<and> ci_prev (joinPairs sp h B) = Some A
           \<and> ci_prev (joinPairs sp h A) = None \<and> ci_next (joinPairs sp h B) = None
           \<and> ci_next (joinPairs sp h C) = None \<and> ci_prev (joinPairs sp h C) = None"
        by (rule example)
    qed
  qed
qed

text \<open>
  \<open>A = 0\<close> ends at tick 100, \<open>B = 1\<close> starts at tick 102 and \<open>C = 2\<close> at tick 150; the
  distances are the differences of the ticks, 2 and 50.
\<close>

theorem reconnectBrokenConnectors_greedy_witness:
  "take 2 (sort_key fst
        (brokenPairs
           (\<lambda>x y. if x = 0 \<and> y = 1 then 2 else if x = 1 \<and> y = 0 then - 2
                   else if x = 0 \<and> y = 2 then 50 else if x = 2 \<and> y = 0 then - 50
                   else INT_MAX)
           [0, 1, 2]))
     = [(2, 0, 1), (50, 0, 2)]
   \<and> ci_next (joinPairs
        (sort_key fst
          (brokenPairs
           (\<lambda>x y. if x = 0 \<and> y = 1 then 2 else if x = 1 \<and> y = 0 then - 2
                   else if x = 0 \<and> y = 2 then 50 else if x = 2 \<and> y = 0 then - 50
                   else INT_MAX)
           [0, 1, 2]))
        (\<lambda>r. \<lparr>ci_prev = None, ci_next = None, ci_connector = None :: unit option\<rparr>) 0) = Some 1
   \<and> ci_prev (joinPairs
        (sort_key fst
          (brokenPairs
           (\<lambda>x y. if x = 0 \<and> y = 1 then 2 else if x = 1 \<and> y = 0 then - 2
                   else if x = 0 \<and> y = 2 then 50 else if x = 2 \<and> y = 0 then - 50
                   else INT_MAX)
           [0, 1, 2]))
        (\<lambda>r. \<lparr>ci_prev = None, ci_next = None, ci_connector = None :: unit option\<rparr>) 2) = None"
  using reconnectBrokenConnectors_greedy
    [where cd = "\<lambda>x y. if x = 0 \<and> y = 1 then 2 else if x = 1 \<and> y = 0 then - 2
                   else if x = 0 \<and> y = 2 then 50 else if x = 2 \<and> y = 0 then - 50
                   else INT_MAX"
      and cs = "[0, 1, 2]" and A = 0 and B = 1 and C = 2 and dAB = 2 and dAC = 50
      and h = "\<lambda>r. \<lparr>ci_prev = None, ci_next = None, ci_connector = None :: unit option\<rparr>"
      and sp = "sort_key fst
          (brokenPairs
           (\<lambda>x y. if x = 0 \<and> y = 1 then 2 else if x = 1 \<and> y = 0 then - 2
                   else if x = 0 \<and> y = 2 then 50 else if x = 2 \<and> y = 0 then - 50
                   else INT_MAX)
           [0, 1, 2])"
      and s = "\<lparr>connectors = [], pendingConnectors = [],
                heap = (\<lambda>r. \<lparr>ci_prev = None, ci_next = None, ci_connector = None :: unit option\<rparr>),
                score = [], p_pasteMode = False\<rparr>"
      and pre = "[]" and d = INT_MAX and a = 0 and b = 0 and post = "[]"
      and ops = "\<lparr>op_update = (\<lambda>c h. h), op_connect = (\<lambda>c2 c1 h. (False, h)),
                  op_finished = (\<lambda>h c. False), op_addToScore = (\<lambda>c p h. h),
                  op_start = (\<lambda>h c. c)\<rparr>"]
  by (simp add: INT_MAX_def insert_commute)

subsection \<open>The destructor\<close>

lemma released_step:
  "released (set cs) (h(c := (h c)\<lparr>ci_connector := None\<rparr>)) = released (set (c # cs)) h"
  by (rule ext) (simp add: released_def)

lemma map_filter_cong_set:
  "(\<And>x. x \<in> set xs \<Longrightarrow> f x = g x) \<Longrightarrow> List.map_filter f xs = List.map_filter g xs"
proof (induction xs)
  case Nil
  show ?case by (simp add: List.map_filter_simps)
next
  case (Cons a xs)
  have "f a = g a" by (rule Cons.prems) simp
  moreover have "List.map_filter f xs = List.map_filter g xs"
    by (rule Cons.IH) (simp add: Cons.prems)
  ultimately show ?case by (simp add: List.map_filter_simps split: option.splits)
qed

lemma held_after_release:
  "c \<notin> set cs \<Longrightarrow>
   List.map_filter (\<lambda>x. ci_connector ((h(c := (h c)\<lparr>ci_connector := None\<rparr>)) x)) cs
   = List.map_filter (\<lambda>x. ci_connector (h x)) cs"
  by (rule map_filter_cong_set) auto

lemma releaseActive_result:
  "distinct cs \<Longrightarrow>
   releaseActive isTuplet cs h deleted =
     (released (set cs) h,
      deleted @ filter (\<lambda>x. \<not> isTuplet x) (List.map_filter (\<lambda>c. ci_connector (h c)) cs))"
proof (induction cs arbitrary: h deleted)
  case Nil
  then show ?case by (simp add: released_def List.map_filter_simps)
next
  case (Cons c cs)
  let ?h = "h(c := (h c)\<lparr>ci_connector := None\<rparr>)"
  let ?d = "case ci_connector (h c) of None \<Rightarrow> [] | Some x \<Rightarrow> if \<not> isTuplet x then [x] else []"
  from Cons.prems have c: "c \<notin> set cs" and d: "distinct cs" by simp_all
  have "releaseActive isTuplet (c # cs) h deleted = releaseActive isTuplet cs ?h (deleted @ ?d)"
    by (simp add: releaseConnector_def split: option.splits)
  also have "\<dots> = (released (set cs) ?h,
      (deleted @ ?d) @ filter (\<lambda>x. \<not> isTuplet x) (List.map_filter (\<lambda>c. ci_connector (?h c)) cs))"
    using d by (rule Cons.IH)
  also have "\<dots> = (released (set (c # cs)) h,
      deleted @ filter (\<lambda>x. \<not> isTuplet x) (List.map_filter (\<lambda>c. ci_connector (h c)) (c # cs)))"
    unfolding released_step held_after_release [OF c]
    by (simp add: List.map_filter_simps split: option.splits)
  finally show ?case .
qed

lemma releasePending_result:
  "distinct cs \<Longrightarrow>
   releasePending cs h deleted =
     (released (set cs) h, deleted @ List.map_filter (\<lambda>c. ci_connector (h c)) cs)"
proof (induction cs arbitrary: h deleted)
  case Nil
  then show ?case by (simp add: released_def List.map_filter_simps)
next
  case (Cons c cs)
  let ?h = "h(c := (h c)\<lparr>ci_connector := None\<rparr>)"
  let ?d = "case ci_connector (h c) of None \<Rightarrow> [] | Some x \<Rightarrow> [x]"
  from Cons.prems have c: "c \<notin> set cs" and d: "distinct cs" by simp_all
  have "releasePending (c # cs) h deleted = releasePending cs ?h (deleted @ ?d)"
    by (simp add: releaseConnector_def split: option.splits)
  also have "\<dots> = (released (set cs) ?h,
      (deleted @ ?d) @ List.map_filter (\<lambda>c. ci_connector (?h c)) cs)"
    using d by (rule Cons.IH)
  also have "\<dots> = (released (set (c # cs)) h,
      deleted @ List.map_filter (\<lambda>c. ci_connector (h c)) (c # cs))"
    unfolding released_step held_after_release [OF c]
    by (simp add: List.map_filter_simps split: option.splits)
  finally show ?case .
qed

text \<open>
  C6. The loop over \<open>_connectors\<close> keeps a tuplet, as its comment says (tuplets are
  added to the score even when not finished); the loop over \<open>_pendingConnectors\<close> has
  no such test. A reader destroyed with one fragment that holds a tuplet deletes
  nothing when the fragment is in \<open>_connectors\<close>, and deletes the tuplet when the
  fragment is in \<open>_pendingConnectors\<close>.
\<close>

theorem destructor_pending_tuplet_deleted:
  "snd (destroyXmlReader (\<lambda>e. e = ''Tuplet'')
     \<lparr>connectors = [3], pendingConnectors = [],
      heap = (\<lambda>r. \<lparr>ci_prev = None, ci_next = None,
                    ci_connector = (if r = 3 then Some ''Tuplet'' else None)\<rparr>),
      score = [], p_pasteMode = False\<rparr>) = []
   \<and> snd (destroyXmlReader (\<lambda>e. e = ''Tuplet'')
     \<lparr>connectors = [], pendingConnectors = [3],
      heap = (\<lambda>r. \<lparr>ci_prev = None, ci_next = None,
                    ci_connector = (if r = 3 then Some ''Tuplet'' else None)\<rparr>),
      score = [], p_pasteMode = False\<rparr>) = [''Tuplet'']"
  by (simp add: destroyXmlReader_def releaseConnector_def)

text \<open>The tuplet of the pending fragment is among the elements deleted.\<close>

theorem destructor_pending_tuplet_deleted_witness:
  "''Tuplet'' \<in> set (snd (destroyXmlReader (\<lambda>e. e = ''Tuplet'')
     \<lparr>connectors = [], pendingConnectors = [3],
      heap = (\<lambda>r. \<lparr>ci_prev = None, ci_next = None,
                    ci_connector = (if r = 3 then Some ''Tuplet'' else None)\<rparr>),
      score = [], p_pasteMode = False\<rparr>))"
  using destructor_pending_tuplet_deleted by simp

text \<open>
  What the destructor does in general: every fragment of \<open>_connectors\<close> and of
  \<open>_pendingConnectors\<close> is left without an element (released). The elements deleted
  are the elements held by the fragments of \<open>_connectors\<close> that are not tuplets, and
  all elements held by the fragments of \<open>_pendingConnectors\<close>.
\<close>

lemma destroyXmlReader_result:
  assumes "distinct (connectors s @ pendingConnectors s)"
  shows "(\<forall>c \<in> set (connectors s) \<union> set (pendingConnectors s).
            ci_connector (fst (destroyXmlReader isTuplet s) c) = None)
     \<and> snd (destroyXmlReader isTuplet s) =
         filter (\<lambda>x. \<not> isTuplet x)
           (List.map_filter (\<lambda>c. ci_connector (heap s c)) (connectors s))
         @ List.map_filter (\<lambda>c. ci_connector (heap s c)) (pendingConnectors s)"
proof -
  from assms have d: "distinct (connectors s)" "distinct (pendingConnectors s)"
    and disj: "set (connectors s) \<inter> set (pendingConnectors s) = {}" by simp_all
  let ?h1 = "released (set (connectors s)) (heap s)"
  have same: "List.map_filter (\<lambda>c. ci_connector (?h1 c)) (pendingConnectors s)
              = List.map_filter (\<lambda>c. ci_connector (heap s c)) (pendingConnectors s)"
    using disj by (intro map_filter_cong_set) (auto simp: released_def)
  have r1: "releaseActive isTuplet (connectors s) (heap s) [] =
          (?h1, filter (\<lambda>x. \<not> isTuplet x)
                  (List.map_filter (\<lambda>c. ci_connector (heap s c)) (connectors s)))"
    using releaseActive_result [OF d(1), of isTuplet "heap s" "[]"] by simp
  have "destroyXmlReader isTuplet s =
          (released (set (pendingConnectors s)) ?h1,
           filter (\<lambda>x. \<not> isTuplet x)
             (List.map_filter (\<lambda>c. ci_connector (heap s c)) (connectors s))
           @ List.map_filter (\<lambda>c. ci_connector (heap s c)) (pendingConnectors s))"
  proof (cases "connectors s \<noteq> [] \<or> pendingConnectors s \<noteq> []")
    case True
    then show ?thesis
      by (simp add: destroyXmlReader_def r1 releasePending_result [OF d(2)] same)
  next
    case False
    then show ?thesis
      by (simp add: destroyXmlReader_def released_def List.map_filter_simps)
  qed
  then show ?thesis by (auto simp: released_def)
qed

section \<open>Properties of checkTuplets\<close>

text \<open>
  C7. A tuplet without elements is deleted in the first loop, and neither
  \<open>sortElements\<close> nor \<open>sanitizeTuplet\<close> is called on it; but its entry stays in the
  table, and the second loop calls \<open>addMissingElements\<close> on the deleted tuplet. On a
  table with one entry, for a tuplet that has no elements, the first loop leaves the
  table as it was, and \<open>checkTuplets\<close> ends in a use of the deleted tuplet.
\<close>

theorem checkTuplets_empty_tuplet:
  "checkTuplets_pass1 (ops\<lparr>t_elementsEmpty := (\<lambda>h t. True)\<rparr>) [(i, tuplet)]
       \<lparr>tuplets = [(i, tuplet)], objects = h, freed = [], calls = []\<rparr>
     = Inr \<lparr>tuplets = [(i, tuplet)], objects = h, freed = [tuplet], calls = [Delete tuplet]\<rparr>
   \<and> checkTuplets (ops\<lparr>t_elementsEmpty := (\<lambda>h t. True)\<rparr>)
       \<lparr>tuplets = [(i, tuplet)], objects = h, freed = [], calls = []\<rparr>
     = Inl UseAfterFree"
  by (simp add: checkTuplets_def)

text \<open>
  What holds of the claim: the first loop never changes the table; and when no tuplet
  is empty, each tuplet is sorted and then sanitized, in the order of the table, and
  only then is \<open>addMissingElements\<close> called on each tuplet.
\<close>

lemma checkTuplets_pass1_table:
  "checkTuplets_pass1 ops ts s = Inr s' \<Longrightarrow> tuplets s' = tuplets s"
  by (induction ops ts s rule: checkTuplets_pass1.induct) (auto split: if_splits)

lemma pass1_nonempty:
  "set (map snd ts) \<inter> set (freed s) = {} \<Longrightarrow>
   \<exists>h. checkTuplets_pass1 (ops\<lparr>t_elementsEmpty := (\<lambda>h t. False)\<rparr>) ts s
     = Inr (s\<lparr>objects := h,
             calls := calls s @ concat (map (\<lambda>(i, t). [SortElements t, SanitizeTuplet t]) ts)\<rparr>)"
proof (induction ts arbitrary: s)
  case Nil
  show ?case by (auto intro: exI [of _ "objects s"])
next
  case (Cons a ts)
  obtain i t where a: "a = (i, t)" by (cases a)
  let ?ops = "ops\<lparr>t_elementsEmpty := (\<lambda>h t. False)\<rparr>"
  let ?s = "s\<lparr>objects := t_sanitizeTuplet ?ops t (t_sortElements ?ops t (objects s)),
             calls := calls s @ [SortElements t, SanitizeTuplet t]\<rparr>"
  from Cons.prems have "set (map snd ts) \<inter> set (freed ?s) = {}" by auto
  from Cons.IH [OF this] obtain h where
    "checkTuplets_pass1 ?ops ts ?s
     = Inr (?s\<lparr>objects := h,
             calls := calls ?s @ concat (map (\<lambda>(i, t). [SortElements t, SanitizeTuplet t]) ts)\<rparr>)"
    by blast
  with Cons.prems show ?case
    by (auto simp: a)
qed

lemma pass2_live:
  "set (map snd ts) \<inter> set (freed s) = {} \<Longrightarrow>
   \<exists>h. checkTuplets_pass2 ops ts s
     = Inr (s\<lparr>objects := h, calls := calls s @ map (\<lambda>(i, t). AddMissingElements t) ts\<rparr>)"
proof (induction ts arbitrary: s)
  case Nil
  show ?case by (auto intro: exI [of _ "objects s"])
next
  case (Cons a ts)
  obtain i t where a: "a = (i, t)" by (cases a)
  let ?s = "s\<lparr>objects := t_addMissingElements ops t (objects s),
             calls := calls s @ [AddMissingElements t]\<rparr>"
  from Cons.prems have "set (map snd ts) \<inter> set (freed ?s) = {}" by auto
  from Cons.IH [OF this] obtain h where
    "checkTuplets_pass2 ops ts ?s
     = Inr (?s\<lparr>objects := h, calls := calls ?s @ map (\<lambda>(i, t). AddMissingElements t) ts\<rparr>)"
    by blast
  with Cons.prems show ?case
    by (auto simp: a)
qed

lemma checkTuplets_nonempty_order:
  assumes "freed s = []"
  shows "\<exists>h. checkTuplets (ops\<lparr>t_elementsEmpty := (\<lambda>h t. False)\<rparr>) s
     = Inr (s\<lparr>objects := h,
             calls := calls s
               @ concat (map (\<lambda>(i, t). [SortElements t, SanitizeTuplet t]) (tuplets s))
               @ map (\<lambda>(i, t). AddMissingElements t) (tuplets s)\<rparr>)"
proof -
  let ?ops = "ops\<lparr>t_elementsEmpty := (\<lambda>h t. False)\<rparr>"
  from assms have "set (map snd (tuplets s)) \<inter> set (freed s) = {}" by simp
  from pass1_nonempty [OF this, of ops] obtain h1 where
    p1: "checkTuplets_pass1 ?ops (tuplets s) s
     = Inr (s\<lparr>objects := h1,
             calls := calls s @ concat (map (\<lambda>(i, t). [SortElements t, SanitizeTuplet t]) (tuplets s))\<rparr>)"
    by blast
  let ?s1 = "s\<lparr>objects := h1,
             calls := calls s @ concat (map (\<lambda>(i, t). [SortElements t, SanitizeTuplet t]) (tuplets s))\<rparr>"
  from assms have "set (map snd (tuplets ?s1)) \<inter> set (freed ?s1) = {}" by simp
  from pass2_live [OF this, of ?ops] obtain h2 where
    "checkTuplets_pass2 ?ops (tuplets ?s1) ?s1
     = Inr (?s1\<lparr>objects := h2, calls := calls ?s1 @ map (\<lambda>(i, t). AddMissingElements t) (tuplets ?s1)\<rparr>)"
    by blast
  with p1 show ?thesis by (auto simp: checkTuplets_def)
qed

end
